theory Spec2Isabelle
  imports Main "HOL-Library.Word"
begin

section \<open>The block-file decoder of utxo/blockdb.py\<close>

text \<open>
  The module decodes a file of magic-tagged, size-prefixed block records. Every decoder
  reads from an \<^verbatim>\<open>io.BytesIO\<close> cursor; the only two ways a decoder can fail are
  \<^verbatim>\<open>struct.unpack\<close> on a byte string of the wrong length (\<^verbatim>\<open>struct.error\<close>, the
  end-of-stream error of the specification) and a failing \<^verbatim>\<open>assert\<close>
  (\<^verbatim>\<open>AssertionError\<close>, the malformed-input error of the specification).
  Assertions are taken as enabled, as they are in a default run of the interpreter.
\<close>

subsection \<open>Bytes, cursors and errors\<close>

type_synonym byte = "8 word"

datatype error = StructError | AssertionError

text \<open>
  A cursor is a buffer and a read offset. \<^verbatim>\<open>read(n)\<close> returns the next \<open>n\<close> bytes, or
  all that remain when fewer than \<open>n\<close> remain (also when \<open>n\<close> is negative), and moves the
  offset past what it returned. It never raises. The file object of \<^verbatim>\<open>read_blockfile\<close>
  reads the same way, so a file is a cursor over its contents.
\<close>

record BytesIO =
  buf :: "byte list"
  pos :: nat

definition BytesIO_new :: "byte list \<Rightarrow> BytesIO" where
  "BytesIO_new bs = \<lparr>buf = bs, pos = 0\<rparr>"

definition remaining :: "BytesIO \<Rightarrow> byte list" where
  "remaining s = drop (pos s) (buf s)"

definition read :: "int \<Rightarrow> BytesIO \<Rightarrow> byte list \<times> BytesIO" where
  "read n s =
     (let bs = (if n < 0 then remaining s else take (nat n) (remaining s))
      in (bs, s\<lparr>pos := pos s + length bs\<rparr>))"

text \<open>Little-endian unsigned value of a byte string, as a Python integer.\<close>

fun le_uint :: "byte list \<Rightarrow> int" where
  "le_uint [] = 0"
| "le_uint (b # bs) = uint b + 256 * le_uint bs"

text \<open>
  \<^verbatim>\<open>unpack("<B"|"<H"|"<I"|"<Q", bs)\<close>: the byte string must have exactly the
  format's length, otherwise \<^verbatim>\<open>struct.error\<close>.
\<close>

definition unpack_le :: "nat \<Rightarrow> byte list \<Rightarrow> error + int" where
  "unpack_le k bs = (if length bs = k then Inr (le_uint bs) else Inl StructError)"

definition unpack_B :: "byte list \<Rightarrow> error + int" where
  "unpack_B = unpack_le 1"

definition unpack_H :: "byte list \<Rightarrow> error + int" where
  "unpack_H = unpack_le 2"

definition unpack_I :: "byte list \<Rightarrow> error + int" where
  "unpack_I = unpack_le 4"

definition unpack_Q :: "byte list \<Rightarrow> error + int" where
  "unpack_Q = unpack_le 8"

subsection \<open>Primitive readers\<close>

text \<open>
  The label argument \<^verbatim>\<open>what\<close> of the three primitive readers is never used by the
  source, so the model leaves it out. \<open>assert_le_ceiling\<close> is the final
  \<^verbatim>\<open>assert ret <= 0x02000000; return ret\<close>.
\<close>

definition assert_le_ceiling :: "int \<Rightarrow> BytesIO \<Rightarrow> error + int \<times> BytesIO" where
  "assert_le_ceiling ret s = (if ret \<le> 0x02000000 then Inr (ret, s) else Inl AssertionError)"

definition read_compact_size :: "BytesIO \<Rightarrow> error + int \<times> BytesIO" where
  "read_compact_size s =
     (let (b, s1) = read 1 s in
      case unpack_B b of
        Inl e \<Rightarrow> Inl e
      | Inr n \<Rightarrow>
          if n < 253 then assert_le_ceiling n s1
          else if n = 253 then
            (let (b2, s2) = read 2 s1 in
             case unpack_H b2 of
               Inl e \<Rightarrow> Inl e
             | Inr ret \<Rightarrow>
                 if ret \<ge> 253 then assert_le_ceiling ret s2 else Inl AssertionError)
          else if n = 254 then
            (let (b4, s2) = read 4 s1 in
             case unpack_I b4 of
               Inl e \<Rightarrow> Inl e
             | Inr ret \<Rightarrow>
                 if ret \<ge> 0x10000 then assert_le_ceiling ret s2 else Inl AssertionError)
          else
            (let (b8, s2) = read 8 s1 in
             case unpack_Q b8 of
               Inl e \<Rightarrow> Inl e
             | Inr ret \<Rightarrow>
                 if ret \<ge> 0x100000000 then assert_le_ceiling ret s2 else Inl AssertionError))"

text \<open>The loop \<^verbatim>\<open>for i in range(0, n): ret.append(read_elem(stream))\<close>.\<close>

fun read_vector_loop ::
  "nat \<Rightarrow> (BytesIO \<Rightarrow> error + 'a \<times> BytesIO) \<Rightarrow> BytesIO \<Rightarrow> 'a list \<Rightarrow> error + 'a list \<times> BytesIO"
where
  "read_vector_loop 0 read_elem s ret = Inr (ret, s)"
| "read_vector_loop (Suc k) read_elem s ret =
     (case read_elem s of
        Inl e \<Rightarrow> Inl e
      | Inr (x, s') \<Rightarrow> read_vector_loop k read_elem s' (ret @ [x]))"

definition read_vector ::
  "(BytesIO \<Rightarrow> error + 'a \<times> BytesIO) \<Rightarrow> BytesIO \<Rightarrow> error + 'a list \<times> BytesIO"
where
  "read_vector read_elem s =
     (case read_compact_size s of
        Inl e \<Rightarrow> Inl e
      | Inr (n, s1) \<Rightarrow> read_vector_loop (nat n) read_elem s1 [])"

definition read_bytes :: "BytesIO \<Rightarrow> error + byte list \<times> BytesIO" where
  "read_bytes s =
     (case read_compact_size s of
        Inl e \<Rightarrow> Inl e
      | Inr (n, s1) \<Rightarrow> Inr (read n s1))"

subsection \<open>Transaction components\<close>

record OutPoint =
  outpoint_hash :: "byte list"
  outpoint_n :: int

definition OutPoint_from_bytes :: "BytesIO \<Rightarrow> error + OutPoint \<times> BytesIO" where
  "OutPoint_from_bytes s =
     (let (h, s1) = read 32 s;
          (b4, s2) = read 4 s1 in
      case unpack_I b4 of
        Inl e \<Rightarrow> Inl e
      | Inr n \<Rightarrow> Inr (\<lparr>outpoint_hash = h, outpoint_n = n\<rparr>, s2))"

record TxIn =
  prevout :: OutPoint
  script_sig :: "byte list"
  sequence :: int

definition TxIn_from_bytes :: "BytesIO \<Rightarrow> error + TxIn \<times> BytesIO" where
  "TxIn_from_bytes s =
     (case OutPoint_from_bytes s of
        Inl e \<Rightarrow> Inl e
      | Inr (po, s1) \<Rightarrow>
          (case read_bytes s1 of
             Inl e \<Rightarrow> Inl e
           | Inr (sig, s2) \<Rightarrow>
               (let (b4, s3) = read 4 s2 in
                case unpack_I b4 of
                  Inl e \<Rightarrow> Inl e
                | Inr sn \<Rightarrow> Inr (\<lparr>prevout = po, script_sig = sig, sequence = sn\<rparr>, s3))))"

record TxOut =
  txout_value :: int
  pubkey :: "byte list"

definition TxOut_from_bytes :: "BytesIO \<Rightarrow> error + TxOut \<times> BytesIO" where
  "TxOut_from_bytes s =
     (let (b8, s1) = read 8 s in
      case unpack_Q b8 of
        Inl e \<Rightarrow> Inl e
      | Inr v \<Rightarrow>
          (case read_bytes s1 of
             Inl e \<Rightarrow> Inl e
           | Inr (pk, s2) \<Rightarrow> Inr (\<lparr>txout_value = v, pubkey = pk\<rparr>, s2)))"

subsection \<open>JoinSplit\<close>

record JoinSplit =
  vpub_old :: int
  vpub_new :: int
  anchor :: "byte list"
  nullifiers :: "byte list list"
  commitments :: "byte list list"
  ephemeral_key :: "byte list"
  random_seed :: "byte list"
  macs :: "byte list list"
  js_proof :: "byte list list list"
  ciphertexts :: "byte list list"

text \<open>The comprehension \<^verbatim>\<open>[stream.read(k) for i in range(0, c)]\<close>.\<close>

fun read_list :: "nat \<Rightarrow> int \<Rightarrow> BytesIO \<Rightarrow> byte list list \<times> BytesIO" where
  "read_list 0 k s = ([], s)"
| "read_list (Suc c) k s =
     (let (b, s1) = read k s;
          (bs, s2) = read_list c k s1
      in (b # bs, s2))"

text \<open>One element \<^verbatim>\<open>[stream.read(1), stream.read(k)]\<close> of the proof list.\<close>

definition read_pair :: "int \<Rightarrow> BytesIO \<Rightarrow> byte list list \<times> BytesIO" where
  "read_pair k s =
     (let (a, s1) = read 1 s;
          (b, s2) = read k s1
      in ([a, b], s2))"

definition JoinSplit_from_bytes :: "BytesIO \<Rightarrow> error + JoinSplit \<times> BytesIO" where
  "JoinSplit_from_bytes s =
     (let (o8, s1) = read 8 s in
      case unpack_Q o8 of
        Inl e \<Rightarrow> Inl e
      | Inr vold \<Rightarrow>
     (let (n8, s2) = read 8 s1 in
      case unpack_Q n8 of
        Inl e \<Rightarrow> Inl e
      | Inr vnew \<Rightarrow>
     (let (anc, s3) = read 32 s2;
          (nfs, s4) = read_list 2 32 s3;
          (cms, s5) = read_list 2 32 s4;
          (epk, s6) = read 32 s5;
          (rsd, s7) = read 32 s6;
          (mcs, s8) = read_list 2 32 s7;
          (p0, s9) = read_pair 32 s8;
          (p1, s10) = read_pair 32 s9;
          (p2, s11) = read_pair 64 s10;
          (p3, s12) = read_pair 32 s11;
          (p4, s13) = read_pair 32 s12;
          (p5, s14) = read_pair 32 s13;
          (p6, s15) = read_pair 32 s14;
          (p7, s16) = read_pair 32 s15;
          (cts, s17) = read_list 2 (585 + 16) s16
      in Inr (\<lparr>vpub_old = vold, vpub_new = vnew, anchor = anc, nullifiers = nfs,
                commitments = cms, ephemeral_key = epk, random_seed = rsd, macs = mcs,
                js_proof = [p0, p1, p2, p3, p4, p5, p6, p7], ciphertexts = cts\<rparr>, s17))))"

subsection \<open>Transaction\<close>

record Transaction =
  tx_version :: int
  vin :: "TxIn list"
  vout :: "TxOut list"
  lock_time :: int
  vjoinsplit :: "JoinSplit list"
  joinsplit_pubkey :: "byte list"
  joinsplit_sig :: "byte list"

definition Transaction_from_bytes :: "BytesIO \<Rightarrow> error + Transaction \<times> BytesIO" where
  "Transaction_from_bytes s =
     (let (v4, s1) = read 4 s in
      case unpack_I v4 of
        Inl e \<Rightarrow> Inl e
      | Inr version \<Rightarrow>
     (case read_vector TxIn_from_bytes s1 of
        Inl e \<Rightarrow> Inl e
      | Inr (ins, s2) \<Rightarrow>
     (case read_vector TxOut_from_bytes s2 of
        Inl e \<Rightarrow> Inl e
      | Inr (outs, s3) \<Rightarrow>
     (let (l4, s4) = read 4 s3 in
      case unpack_I l4 of
        Inl e \<Rightarrow> Inl e
      | Inr locktime \<Rightarrow>
     (case (if version \<ge> 2 then read_vector JoinSplit_from_bytes s4 else Inr ([], s4)) of
        Inl e \<Rightarrow> Inl e
      | Inr (joinsplits, s5) \<Rightarrow>
     (let (pk, sg, s7) =
            (if length joinsplits > 0
             then (let (pk, s6) = read 32 s5;
                       (sg, s7) = read 64 s6
                   in (pk, sg, s7))
             else ([], [], s5))
      in Inr (\<lparr>tx_version = version, vin = ins, vout = outs, lock_time = locktime,
                vjoinsplit = joinsplits, joinsplit_pubkey = pk,
                joinsplit_sig = sg\<rparr>, s7)))))))"

subsection \<open>Block header and block\<close>

record BlockHeader =
  header_version :: "byte list"
  hash_prev :: "byte list"
  hash_root :: "byte list"
  hash_extra :: "byte list"
  header_time :: "byte list"
  bits :: "byte list"
  nonce :: "byte list"
  solution :: "byte list"

definition BlockHeader_from_bytes :: "BytesIO \<Rightarrow> error + BlockHeader \<times> BytesIO" where
  "BlockHeader_from_bytes s =
     (let (ver, s1) = read 4 s;
          (hp, s2) = read 32 s1;
          (hr, s3) = read 32 s2;
          (he, s4) = read 32 s3;
          (tm, s5) = read 4 s4;
          (bt, s6) = read 4 s5;
          (nc, s7) = read 32 s6 in
      case read_bytes s7 of
        Inl e \<Rightarrow> Inl e
      | Inr (sol, s8) \<Rightarrow>
          Inr (\<lparr>header_version = ver, hash_prev = hp, hash_root = hr, hash_extra = he,
                header_time = tm, bits = bt, nonce = nc, solution = sol\<rparr>, s8))"

record Block =
  header :: BlockHeader
  transactions :: "Transaction list"

definition Block_from_bytes :: "BytesIO \<Rightarrow> error + Block \<times> BytesIO" where
  "Block_from_bytes s =
     (case BlockHeader_from_bytes s of
        Inl e \<Rightarrow> Inl e
      | Inr (hdr, s1) \<Rightarrow>
          (case read_vector Transaction_from_bytes s1 of
             Inl e \<Rightarrow> Inl e
           | Inr (txs, s2) \<Rightarrow> Inr (\<lparr>header = hdr, transactions = txs\<rparr>, s2)))"

subsection \<open>The block-file reader\<close>

text \<open>
  The \<^verbatim>\<open>while len(magic)\<close> loop of \<^verbatim>\<open>read_blockfile\<close>, with the file \<open>f\<close>, the list
  \<open>ret\<close> and the last magic read as loop state. An exception leaves the function,
  so the blocks accumulated in \<open>ret\<close> are lost with it.
\<close>

function blockfile_loop ::
  "byte list \<Rightarrow> BytesIO \<Rightarrow> Block list \<Rightarrow> byte list \<Rightarrow> error + Block list"
where
  "blockfile_loop expected_prefix f ret magic =
     (if length magic = 0 then Inr ret
      else if magic \<noteq> expected_prefix then Inl AssertionError
      else
        (let (b4, f1) = read 4 f in
         case unpack_I b4 of
           Inl e \<Rightarrow> Inl e
         | Inr block_size \<Rightarrow>
             (let (payload, f2) = read block_size f1;
                  raw_block = BytesIO_new payload in
              case Block_from_bytes raw_block of
                Inl e \<Rightarrow> Inl e
              | Inr (blk, raw_block') \<Rightarrow>
                  (let (magic', f3) = read (int (length expected_prefix)) f2
                   in blockfile_loop expected_prefix f3 (ret @ [blk]) magic'))))"
  by pat_completeness auto
text \<open>
  The loop ends because a round that goes on has read the four bytes of the size field,
  so the file offset moves forward while the buffer stays the same.
\<close>

lemma read_buf: "read n s = (bs, s') \<Longrightarrow> buf s' = buf s"
  by (auto simp: read_def Let_def)

lemma read_pos: "read n s = (bs, s') \<Longrightarrow> pos s' = pos s + length bs"
  by (auto simp: read_def Let_def)

lemma read_bound: "read n s = (bs, s') \<Longrightarrow> length bs \<le> length (buf s) - pos s"
  by (auto simp: read_def Let_def remaining_def)

termination blockfile_loop
proof (relation "measure (\<lambda>(p, f, ret, magic). length (buf f) - pos f)", goal_cases)
  case 1
  show ?case by simp
next
  case (2 expected_prefix f ret magic x b4 f1 block_size y payload f2 raw z blk raw' w magic' f3)
  from 2 have r1: "read 4 f = (b4, f1)" and r2: "read block_size f1 = (payload, f2)"
    and r3: "read (int (length expected_prefix)) f2 = (magic', f3)"
    and len: "length b4 = 4"
    by (auto simp: unpack_I_def unpack_le_def split: if_splits)
  have "buf f3 = buf f"
    using read_buf [OF r1] read_buf [OF r2] read_buf [OF r3] by simp
  moreover have "pos f + 4 \<le> pos f3"
    using read_pos [OF r1] read_pos [OF r2] read_pos [OF r3] len by simp
  moreover have "4 \<le> length (buf f) - pos f"
    using read_bound [OF r1] len by simp
  ultimately show ?case by simp
qed

declare blockfile_loop.simps [simp del]

text \<open>
  \<^verbatim>\<open>read_blockfile(name, expected_prefix)\<close> on a file that opens, given by its
  contents.
\<close>

definition read_blockfile :: "byte list \<Rightarrow> byte list \<Rightarrow> error + Block list" where
  "read_blockfile file expected_prefix =
     (let f = BytesIO_new file;
          (magic, f1) = read (int (length expected_prefix)) f
      in blockfile_loop expected_prefix f1 [] magic)"

section \<open>Properties\<close>

subsection \<open>Reading from a cursor\<close>

lemma read_exact:
  "0 \<le> n \<Longrightarrow> nat n \<le> length (remaining s) \<Longrightarrow>
   read n s = (take (nat n) (remaining s), s\<lparr>pos := pos s + nat n\<rparr>)"
  by (simp add: read_def Let_def)

lemma read_short:
  "0 \<le> n \<Longrightarrow> length (remaining s) \<le> nat n \<Longrightarrow>
   read n s = (remaining s, s\<lparr>pos := pos s + length (remaining s)\<rparr>)"
  by (simp add: read_def Let_def)

lemma remaining_pos_update: "remaining (s\<lparr>pos := pos s + k\<rparr>) = drop k (remaining s)"
  by (simp add: remaining_def add.commute)

lemma le_uint_nonneg: "0 \<le> le_uint bs"
  by (induction bs) simp_all

lemma le_uint_bound: "le_uint bs < 256 ^ length bs"
proof (induction bs)
  case Nil
  show ?case by simp
next
  case (Cons b bs)
  have "uint b < 256" using uint_bounded [of b] by simp
  with Cons show ?case by simp
qed

lemma read_compact_size_range:
  "read_compact_size s = Inr (v, s') \<Longrightarrow> 0 \<le> v \<and> v \<le> 0x02000000"
  by (auto simp: read_compact_size_def assert_le_ceiling_def Let_def unpack_B_def unpack_H_def
        unpack_I_def unpack_Q_def unpack_le_def le_uint_nonneg
      split: prod.splits sum.splits if_splits)

text \<open>
  C10: with an empty expected prefix the first magic read asks for zero bytes and gets
  zero bytes, so the loop is never entered and the result is the empty list, whatever
  the file holds.
\<close>

theorem read_blockfile_empty_prefix: "read_blockfile file [] = Inr []"
  by (simp add: read_blockfile_def read_def Let_def blockfile_loop.simps)

text \<open>
  C9: on a cursor with at least 36 bytes left, \<^verbatim>\<open>OutPoint.from_bytes\<close> returns the
  next 32 bytes as they are for the hash, the little-endian value of the following four
  bytes for \<open>n\<close>, and moves the cursor by exactly 36.
\<close>

theorem OutPoint_from_bytes_36:
  "36 \<le> length (remaining s) \<Longrightarrow>
   OutPoint_from_bytes s =
     Inr (\<lparr>outpoint_hash = take 32 (remaining s),
           outpoint_n = le_uint (take 4 (drop 32 (remaining s)))\<rparr>,
          s\<lparr>pos := pos s + 36\<rparr>)"
  by (simp add: OutPoint_from_bytes_def read_exact remaining_pos_update unpack_I_def
        unpack_le_def)

theorem OutPoint_from_bytes_36_witness:
  "36 \<le> length (remaining \<lparr>buf = replicate 32 171 @ [1, 2, 0, 0], pos = 0\<rparr>) \<and>
   OutPoint_from_bytes \<lparr>buf = replicate 32 171 @ [1, 2, 0, 0], pos = 0\<rparr> =
     Inr (\<lparr>outpoint_hash = replicate 32 171, outpoint_n = 513\<rparr>,
          \<lparr>buf = replicate 32 171 @ [1, 2, 0, 0], pos = 36\<rparr>)"
  using OutPoint_from_bytes_36 [of "\<lparr>buf = replicate 32 171 @ [1, 2, 0, 0], pos = 0\<rparr>"]
  by (simp add: remaining_def)

lemma read_prefix:
  assumes "remaining s = bs @ rest" and "n = int (length bs)"
  shows "read n s = (bs, s\<lparr>pos := pos s + length bs\<rparr>)"
    and "remaining (s\<lparr>pos := pos s + length bs\<rparr>) = rest"
  using assms by (simp_all add: read_def Let_def remaining_pos_update)

lemma read_compact_size_form:
  assumes "remaining s = b # bs @ rest"
  shows "read 1 s = ([b], s\<lparr>pos := pos s + 1\<rparr>)"
    and "n = int (length bs) \<Longrightarrow>
         read n (s\<lparr>pos := pos s + 1\<rparr>) = (bs, s\<lparr>pos := pos s + 1 + length bs\<rparr>)"
proof -
  have a: "remaining s = [b] @ (bs @ rest)" using assms by simp
  show "read 1 s = ([b], s\<lparr>pos := pos s + 1\<rparr>)"
    using read_prefix(1) [OF a, of 1] by simp
  have b: "remaining (s\<lparr>pos := pos s + 1\<rparr>) = bs @ rest"
    using read_prefix(2) [OF a, of 1] by simp
  show "read n (s\<lparr>pos := pos s + 1\<rparr>) = (bs, s\<lparr>pos := pos s + 1 + length bs\<rparr>)"
    if "n = int (length bs)"
    using read_prefix(1) [OF b that] by simp
qed

text \<open>
  C4: the compact-size reader raises \<^verbatim>\<open>AssertionError\<close> on every non-canonical
  encoding whose bytes are all there (a 253-form value below 253, a 254-form value below
  65536, a 255-form value below 4294967296) and on every decoded value above 0x02000000;
  a 255-form encoding is therefore always rejected. Whatever it returns lies in
  \<open>[0, 0x02000000]\<close>.
\<close>

theorem read_compact_size_rejects:
  "(\<forall>v s'. read_compact_size s = Inr (v, s') \<longrightarrow> 0 \<le> v \<and> v \<le> 0x02000000) \<and>
   (\<forall>bs rest. remaining s = 253 # bs @ rest \<and> length bs = 2 \<and>
        (le_uint bs < 253 \<or> 0x02000000 < le_uint bs) \<longrightarrow>
        read_compact_size s = Inl AssertionError) \<and>
   (\<forall>bs rest. remaining s = 254 # bs @ rest \<and> length bs = 4 \<and>
        (le_uint bs < 0x10000 \<or> 0x02000000 < le_uint bs) \<longrightarrow>
        read_compact_size s = Inl AssertionError) \<and>
   (\<forall>bs rest. remaining s = 255 # bs @ rest \<and> length bs = 8 \<and>
        (le_uint bs < 0x100000000 \<or> 0x02000000 < le_uint bs) \<longrightarrow>
        read_compact_size s = Inl AssertionError)"
proof (intro conjI allI impI)
  fix v s'
  assume "read_compact_size s = Inr (v, s')"
  then show "0 \<le> v" and "v \<le> 0x02000000"
    using read_compact_size_range by blast+
next
  fix bs rest
  assume a: "remaining s = 253 # bs @ rest \<and> length bs = 2 \<and>
    (le_uint bs < 253 \<or> 0x02000000 < le_uint bs)"
  then have "read 1 s = ([253], s\<lparr>pos := pos s + 1\<rparr>)"
    and "read 2 (s\<lparr>pos := pos s + 1\<rparr>) = (bs, s\<lparr>pos := pos s + 1 + length bs\<rparr>)"
    using read_compact_size_form(1) [of s 253 bs rest]
      read_compact_size_form(2) [of s 253 bs rest 2] by simp_all
  with a show "read_compact_size s = Inl AssertionError"
    by (auto simp: read_compact_size_def unpack_B_def unpack_H_def unpack_le_def
          assert_le_ceiling_def)
next
  fix bs rest
  assume a: "remaining s = 254 # bs @ rest \<and> length bs = 4 \<and>
    (le_uint bs < 0x10000 \<or> 0x02000000 < le_uint bs)"
  then have "read 1 s = ([254], s\<lparr>pos := pos s + 1\<rparr>)"
    and "read 4 (s\<lparr>pos := pos s + 1\<rparr>) = (bs, s\<lparr>pos := pos s + 1 + length bs\<rparr>)"
    using read_compact_size_form(1) [of s 254 bs rest]
      read_compact_size_form(2) [of s 254 bs rest 4] by simp_all
  with a show "read_compact_size s = Inl AssertionError"
    by (auto simp: read_compact_size_def unpack_B_def unpack_I_def unpack_le_def
          assert_le_ceiling_def)
next
  fix bs rest
  assume a: "remaining s = 255 # bs @ rest \<and> length bs = 8 \<and>
    (le_uint bs < 0x100000000 \<or> 0x02000000 < le_uint bs)"
  then have "read 1 s = ([255], s\<lparr>pos := pos s + 1\<rparr>)"
    and "read 8 (s\<lparr>pos := pos s + 1\<rparr>) = (bs, s\<lparr>pos := pos s + 1 + length bs\<rparr>)"
    using read_compact_size_form(1) [of s 255 bs rest]
      read_compact_size_form(2) [of s 255 bs rest 8] by simp_all
  with a show "read_compact_size s = Inl AssertionError"
    by (auto simp: read_compact_size_def unpack_B_def unpack_Q_def unpack_le_def
          assert_le_ceiling_def)
qed

theorem read_compact_size_rejects_witness:
  "remaining \<lparr>buf = [253, 0, 0], pos = 0\<rparr> = 253 # [0, 0] @ [] \<and>
   length [0 :: byte, 0] = 2 \<and> le_uint [0, 0] < 253 \<and>
   read_compact_size \<lparr>buf = [253, 0, 0], pos = 0\<rparr> = Inl AssertionError"
proof -
  have "\<forall>bs rest. remaining \<lparr>buf = [253, 0, 0], pos = 0\<rparr> = 253 # bs @ rest \<and> length bs = 2 \<and>
        (le_uint bs < 253 \<or> 0x02000000 < le_uint bs) \<longrightarrow>
        read_compact_size \<lparr>buf = [253, 0, 0], pos = 0\<rparr> = Inl AssertionError"
    using read_compact_size_rejects [of "\<lparr>buf = [253, 0, 0], pos = 0\<rparr>"] by blast
  then have "remaining \<lparr>buf = [253, 0, 0], pos = 0\<rparr> = 253 # [0, 0] @ [] \<and>
      length [0 :: byte, 0] = 2 \<and> (le_uint [0, 0] < 253 \<or> 0x02000000 < le_uint [0, 0]) \<longrightarrow>
      read_compact_size \<lparr>buf = [253, 0, 0], pos = 0\<rparr> = Inl AssertionError"
    by blast
  then show ?thesis by (simp add: remaining_def)
qed

text \<open>
  The canonical encoding of a value, as the wire format describes it: the value itself
  in one byte below 253, else the marker 253, 254 or 255 and the value in 2, 4 or 8
  little-endian bytes, the shortest form that holds it.
\<close>

fun le_bytes :: "nat \<Rightarrow> int \<Rightarrow> byte list" where
  "le_bytes 0 v = []"
| "le_bytes (Suc k) v = word_of_int (v mod 256) # le_bytes k (v div 256)"

definition compact_size_encoding :: "int \<Rightarrow> byte list" where
  "compact_size_encoding v =
     (if v < 253 then le_bytes 1 v
      else if v < 0x10000 then 253 # le_bytes 2 v
      else if v < 0x100000000 then 254 # le_bytes 4 v
      else 255 # le_bytes 8 v)"

lemma length_le_bytes: "length (le_bytes k v) = k"
  by (induction k arbitrary: v) simp_all

lemma uint_byte_of_mod: "uint (word_of_int (v mod 256) :: byte) = v mod 256"
  by (simp add: uint_word_of_int take_bit_eq_mod)

lemma le_uint_le_bytes: "0 \<le> v \<Longrightarrow> v < 256 ^ k \<Longrightarrow> le_uint (le_bytes k v) = v"
proof (induction k arbitrary: v)
  case 0
  then show ?case by simp
next
  case (Suc k)
  have "0 \<le> v div 256" using Suc.prems(1) by simp
  moreover have "v div 256 < 256 ^ k"
    using Suc.prems(2) by (simp add: div_less_iff_less_mult mult.commute)
  ultimately have "le_uint (le_bytes k (v div 256)) = v div 256"
    by (rule Suc.IH)
  then show ?case
    by (simp add: uint_byte_of_mod)
qed

lemma compact_size_encoding_ceiling: "compact_size_encoding 33554432 = [254, 0, 0, 0, 2]"
  by (simp add: compact_size_encoding_def numeral_eq_Suc)

lemma read_compact_size_forms:
  "(\<forall>b rest. remaining s = b # rest \<and> uint b < 253 \<longrightarrow>
        read_compact_size s = Inr (uint b, s\<lparr>pos := pos s + 1\<rparr>)) \<and>
   (\<forall>bs rest. remaining s = 253 # bs @ rest \<and> length bs = 2 \<and> 253 \<le> le_uint bs \<longrightarrow>
        read_compact_size s = Inr (le_uint bs, s\<lparr>pos := pos s + 3\<rparr>)) \<and>
   (\<forall>bs rest. remaining s = 254 # bs @ rest \<and> length bs = 4 \<and>
        0x10000 \<le> le_uint bs \<and> le_uint bs \<le> 0x02000000 \<longrightarrow>
        read_compact_size s = Inr (le_uint bs, s\<lparr>pos := pos s + 5\<rparr>))"
proof (intro conjI allI impI)
  fix b rest
  assume a: "remaining s = b # rest \<and> uint b < 253"
  then have "remaining s = b # [] @ rest" by simp
  then have "read 1 s = ([b], s\<lparr>pos := pos s + 1\<rparr>)"
    by (rule read_compact_size_form(1))
  with a show "read_compact_size s = Inr (uint b, s\<lparr>pos := pos s + 1\<rparr>)"
    by (simp add: read_compact_size_def unpack_B_def unpack_le_def assert_le_ceiling_def)
next
  fix bs rest
  assume a: "remaining s = 253 # bs @ rest \<and> length bs = 2 \<and> 253 \<le> le_uint bs"
  then have "read 1 s = ([253], s\<lparr>pos := pos s + 1\<rparr>)"
    and "read 2 (s\<lparr>pos := pos s + 1\<rparr>) = (bs, s\<lparr>pos := pos s + 1 + length bs\<rparr>)"
    using read_compact_size_form(1) [of s 253 bs rest]
      read_compact_size_form(2) [of s 253 bs rest 2] by simp_all
  moreover have "le_uint bs \<le> 0x02000000"
    using le_uint_bound [of bs] a by simp
  ultimately show "read_compact_size s = Inr (le_uint bs, s\<lparr>pos := pos s + 3\<rparr>)"
    using a
    by (simp add: read_compact_size_def unpack_B_def unpack_H_def unpack_le_def
          assert_le_ceiling_def)
next
  fix bs rest
  assume a: "remaining s = 254 # bs @ rest \<and> length bs = 4 \<and>
    0x10000 \<le> le_uint bs \<and> le_uint bs \<le> 0x02000000"
  then have "read 1 s = ([254], s\<lparr>pos := pos s + 1\<rparr>)"
    and "read 4 (s\<lparr>pos := pos s + 1\<rparr>) = (bs, s\<lparr>pos := pos s + 1 + length bs\<rparr>)"
    using read_compact_size_form(1) [of s 254 bs rest]
      read_compact_size_form(2) [of s 254 bs rest 4] by simp_all
  with a show "read_compact_size s = Inr (le_uint bs, s\<lparr>pos := pos s + 5\<rparr>)"
    by (simp add: read_compact_size_def unpack_B_def unpack_I_def unpack_le_def
          assert_le_ceiling_def)
qed


lemma read_compact_size_encoding:
  assumes "0 \<le> v" and "v \<le> 0x02000000"
    and "remaining s = compact_size_encoding v @ rest"
  shows "read_compact_size s =
     Inr (v, s\<lparr>pos := pos s + length (compact_size_encoding v)\<rparr>)"
proof -
  consider "v < 253" | "253 \<le> v" "v < 0x10000" | "0x10000 \<le> v"
    by linarith
  then show ?thesis
  proof cases
    case 1
    let ?b = "word_of_int (v mod 256) :: byte"
    have "v mod 256 = v" using 1 assms(1) by simp
    then have u: "uint ?b = v" using uint_byte_of_mod [of v] by (simp only:)
    have "remaining s = ?b # rest \<and> uint ?b < 253"
      using 1 assms(3) u by (simp add: compact_size_encoding_def)
    then have "read_compact_size s = Inr (uint ?b, s\<lparr>pos := pos s + 1\<rparr>)"
      using read_compact_size_forms [of s] by blast
    with 1 u show ?thesis by (simp add: compact_size_encoding_def)
  next
    case 2
    have u: "le_uint (le_bytes 2 v) = v"
      using 2 assms(1) by (intro le_uint_le_bytes) simp_all
    have "remaining s = 253 # le_bytes 2 v @ rest \<and> length (le_bytes 2 v) = 2 \<and>
        253 \<le> le_uint (le_bytes 2 v)"
      using 2 assms(3) u by (simp add: compact_size_encoding_def length_le_bytes)
    then have "read_compact_size s = Inr (le_uint (le_bytes 2 v), s\<lparr>pos := pos s + 3\<rparr>)"
      using read_compact_size_forms [of s] by blast
    with 2 u show ?thesis by (simp add: compact_size_encoding_def length_le_bytes)
  next
    case 3
    have u: "le_uint (le_bytes 4 v) = v"
      using 3 assms(1,2) by (intro le_uint_le_bytes) simp_all
    have "remaining s = 254 # le_bytes 4 v @ rest \<and> length (le_bytes 4 v) = 4 \<and>
        0x10000 \<le> le_uint (le_bytes 4 v) \<and> le_uint (le_bytes 4 v) \<le> 0x02000000"
      using 3 assms(2,3) u by (simp add: compact_size_encoding_def length_le_bytes)
    then have "read_compact_size s = Inr (le_uint (le_bytes 4 v), s\<lparr>pos := pos s + 5\<rparr>)"
      using read_compact_size_forms [of s] by blast
    with 3 assms(2) u show ?thesis by (simp add: compact_size_encoding_def length_le_bytes)
  qed
qed

text \<open>
  C5: on the canonical encoding of a value \<open>v\<close> in \<open>[0, 0x02000000]\<close> the reader returns
  \<open>v\<close> and moves the cursor past the encoding. By form: one byte when the first byte
  is below 253 (the value is that byte), three bytes for the 253-form (a 16-bit
  little-endian value of at least 253), five bytes for the 254-form (a 32-bit
  little-endian value of at least 65536). No value of the range has a canonical
  255-form: the smallest one is 4294967296.
\<close>

theorem read_compact_size_canonical:
  "(\<forall>v rest. 0 \<le> v \<and> v \<le> 0x02000000 \<and> remaining s = compact_size_encoding v @ rest \<longrightarrow>
        read_compact_size s =
          Inr (v, s\<lparr>pos := pos s + length (compact_size_encoding v)\<rparr>)) \<and>
   (\<forall>b rest. remaining s = b # rest \<and> uint b < 253 \<longrightarrow>
        read_compact_size s = Inr (uint b, s\<lparr>pos := pos s + 1\<rparr>)) \<and>
   (\<forall>bs rest. remaining s = 253 # bs @ rest \<and> length bs = 2 \<and> 253 \<le> le_uint bs \<longrightarrow>
        read_compact_size s = Inr (le_uint bs, s\<lparr>pos := pos s + 3\<rparr>)) \<and>
   (\<forall>bs rest. remaining s = 254 # bs @ rest \<and> length bs = 4 \<and>
        0x10000 \<le> le_uint bs \<and> le_uint bs \<le> 0x02000000 \<longrightarrow>
        read_compact_size s = Inr (le_uint bs, s\<lparr>pos := pos s + 5\<rparr>))"
  using read_compact_size_forms [of s] read_compact_size_encoding [of _ s]
  by blast

theorem read_compact_size_canonical_witness:
  "remaining \<lparr>buf = [7, 254, 0, 0, 0, 2, 9], pos = 1\<rparr> = 254 # [0, 0, 0, 2] @ [9] \<and>
   length [0 :: byte, 0, 0, 2] = 4 \<and>
   0x10000 \<le> le_uint [0, 0, 0, 2] \<and> le_uint [0, 0, 0, 2] \<le> 0x02000000 \<and>
   read_compact_size \<lparr>buf = [7, 254, 0, 0, 0, 2, 9], pos = 1\<rparr> =
     Inr (33554432, \<lparr>buf = [7, 254, 0, 0, 0, 2, 9], pos = 6\<rparr>)"
proof -
  have "\<forall>bs rest. remaining \<lparr>buf = [7, 254, 0, 0, 0, 2, 9], pos = 1\<rparr> = 254 # bs @ rest \<and>
        length bs = 4 \<and> 0x10000 \<le> le_uint bs \<and> le_uint bs \<le> 0x02000000 \<longrightarrow>
        read_compact_size \<lparr>buf = [7, 254, 0, 0, 0, 2, 9], pos = 1\<rparr> =
          Inr (le_uint bs, \<lparr>buf = [7, 254, 0, 0, 0, 2, 9], pos = 1\<rparr>\<lparr>pos := pos \<lparr>buf = [7, 254, 0, 0, 0, 2, 9], pos = 1\<rparr> + 5\<rparr>)"
    using read_compact_size_canonical [of "\<lparr>buf = [7, 254, 0, 0, 0, 2, 9], pos = 1\<rparr>"] by blast
  then have "remaining \<lparr>buf = [7, 254, 0, 0, 0, 2, 9], pos = 1\<rparr> = 254 # [0, 0, 0, 2] @ [9] \<and>
        length [0 :: byte, 0, 0, 2] = 4 \<and> 0x10000 \<le> le_uint [0, 0, 0, 2] \<and>
        le_uint [0, 0, 0, 2] \<le> 0x02000000 \<longrightarrow>
        read_compact_size \<lparr>buf = [7, 254, 0, 0, 0, 2, 9], pos = 1\<rparr> =
          Inr (le_uint [0, 0, 0, 2], \<lparr>buf = [7, 254, 0, 0, 0, 2, 9], pos = 1\<rparr>\<lparr>pos := pos \<lparr>buf = [7, 254, 0, 0, 0, 2, 9], pos = 1\<rparr> + 5\<rparr>)"
    by blast
  then show ?thesis by (simp add: remaining_def)
qed

text \<open>
  C1 as stated fails: \<^verbatim>\<open>read_bytes\<close> ends in \<^verbatim>\<open>stream.read(n)\<close>, which does not
  raise on a short read. With a length prefix of 5 and only two bytes behind it, the two
  bytes are returned.
\<close>

theorem read_bytes_short_counterexample:
  "read_bytes \<lparr>buf = [5, 1, 2], pos = 0\<rparr> = Inr ([1, 2], \<lparr>buf = [5, 1, 2], pos = 3\<rparr>)"
  by (simp add: read_bytes_def read_compact_size_def read_def Let_def remaining_def
        unpack_B_def unpack_le_def assert_le_ceiling_def)

text \<open>
  C1 as amended: \<^verbatim>\<open>read_bytes\<close> fails exactly when the compact-size prefix fails,
  with the same error. When the prefix decodes to \<open>n\<close>, it returns the next \<open>n\<close> bytes
  and advances the cursor by \<open>n\<close> if at least \<open>n\<close> bytes remain; if fewer remain it
  returns all of them, a byte string shorter than \<open>n\<close>, and moves the cursor to the end
  of the buffer, without an error.
\<close>

theorem read_bytes_result:
  "(\<forall>e. read_compact_size s = Inl e \<longrightarrow> read_bytes s = Inl e) \<and>
   (\<forall>n s1. read_compact_size s = Inr (n, s1) \<and> nat n \<le> length (remaining s1) \<longrightarrow>
      read_bytes s = Inr (take (nat n) (remaining s1), s1\<lparr>pos := pos s1 + nat n\<rparr>) \<and>
      length (take (nat n) (remaining s1)) = nat n) \<and>
   (\<forall>n s1. read_compact_size s = Inr (n, s1) \<and> length (remaining s1) < nat n \<longrightarrow>
      read_bytes s = Inr (remaining s1, s1\<lparr>pos := pos s1 + length (remaining s1)\<rparr>))"
proof (intro conjI allI impI)
  fix e
  assume "read_compact_size s = Inl e"
  then show "read_bytes s = Inl e" by (simp add: read_bytes_def)
next
  fix n s1
  assume a: "read_compact_size s = Inr (n, s1) \<and> nat n \<le> length (remaining s1)"
  then have "0 \<le> n" using read_compact_size_range by blast
  with a show "read_bytes s = Inr (take (nat n) (remaining s1), s1\<lparr>pos := pos s1 + nat n\<rparr>)"
    by (simp add: read_bytes_def read_exact)
  from a show "length (take (nat n) (remaining s1)) = nat n" by simp
next
  fix n s1
  assume a: "read_compact_size s = Inr (n, s1) \<and> length (remaining s1) < nat n"
  then have "0 \<le> n" using read_compact_size_range by blast
  with a show "read_bytes s = Inr (remaining s1, s1\<lparr>pos := pos s1 + length (remaining s1)\<rparr>)"
    by (simp add: read_bytes_def read_short)
qed

lemma read_compact_size_small:
  "read_compact_size \<lparr>buf = [2, 7, 8, 9], pos = 0\<rparr> = Inr (2, \<lparr>buf = [2, 7, 8, 9], pos = 1\<rparr>)"
  by (simp add: read_compact_size_def read_def Let_def remaining_def
        unpack_B_def unpack_le_def assert_le_ceiling_def)

theorem read_bytes_result_witness:
  "read_compact_size \<lparr>buf = [2, 7, 8, 9], pos = 0\<rparr> = Inr (2, \<lparr>buf = [2, 7, 8, 9], pos = 1\<rparr>) \<and>
   nat 2 \<le> length (remaining \<lparr>buf = [2, 7, 8, 9], pos = 1\<rparr>) \<and>
   read_bytes \<lparr>buf = [2, 7, 8, 9], pos = 0\<rparr> = Inr ([7, 8], \<lparr>buf = [2, 7, 8, 9], pos = 3\<rparr>)"
proof -
  have "\<forall>n s1. read_compact_size \<lparr>buf = [2, 7, 8, 9], pos = 0\<rparr> = Inr (n, s1) \<and>
        nat n \<le> length (remaining s1) \<longrightarrow>
      read_bytes \<lparr>buf = [2, 7, 8, 9], pos = 0\<rparr> =
        Inr (take (nat n) (remaining s1), s1\<lparr>pos := pos s1 + nat n\<rparr>) \<and>
      length (take (nat n) (remaining s1)) = nat n"
    using read_bytes_result [of "\<lparr>buf = [2, 7, 8, 9], pos = 0\<rparr>"] by blast
  then have "read_compact_size \<lparr>buf = [2, 7, 8, 9], pos = 0\<rparr> =
        Inr (2, \<lparr>buf = [2, 7, 8, 9], pos = 1\<rparr>) \<and>
        nat 2 \<le> length (remaining \<lparr>buf = [2, 7, 8, 9], pos = 1\<rparr>) \<longrightarrow>
      read_bytes \<lparr>buf = [2, 7, 8, 9], pos = 0\<rparr> =
        Inr (take (nat 2) (remaining \<lparr>buf = [2, 7, 8, 9], pos = 1\<rparr>),
             \<lparr>buf = [2, 7, 8, 9], pos = 1\<rparr>\<lparr>pos := pos \<lparr>buf = [2, 7, 8, 9], pos = 1\<rparr> + nat 2\<rparr>)"
    by blast
  then show ?thesis using read_compact_size_small by (simp add: remaining_def)
qed

subsection \<open>The block-file loop\<close>

lemma read_remaining:
  assumes "0 \<le> n"
  shows "fst (read n s) = take (nat n) (remaining s)"
    and "remaining (snd (read n s)) = drop (nat n) (remaining s)"
  using assms by (simp_all add: read_def Let_def remaining_pos_update min_def)

text \<open>One round of the loop, in terms of the bytes that are left in the file.\<close>

lemma blockfile_loop_unfold:
  "blockfile_loop p f ret magic =
     (if magic = [] then Inr ret
      else if magic \<noteq> p then Inl AssertionError
      else case unpack_I (take 4 (remaining f)) of
             Inl e \<Rightarrow> Inl e
           | Inr block_size \<Rightarrow>
               (case Block_from_bytes
                       (BytesIO_new (take (nat block_size) (drop 4 (remaining f)))) of
                  Inl e \<Rightarrow> Inl e
                | Inr (blk, c) \<Rightarrow>
                    blockfile_loop p
                      (snd (read (int (length p)) (snd (read block_size (snd (read 4 f))))))
                      (ret @ [blk])
                      (take (length p) (drop (nat block_size) (drop 4 (remaining f))))))"
proof (cases "magic = [] \<or> magic \<noteq> p")
  case True
  then show ?thesis by (subst blockfile_loop.simps) auto
next
  case False
  have r4: "fst (read 4 f) = take 4 (remaining f)"
    "remaining (snd (read 4 f)) = drop 4 (remaining f)"
    using read_remaining [of 4 f] by simp_all
  show ?thesis
  proof (cases "unpack_I (take 4 (remaining f))")
    case (Inl e)
    with False show ?thesis
      by (subst blockfile_loop.simps) (simp add: case_prod_unfold r4)
  next
    case (Inr block_size)
    then have nn: "0 \<le> block_size"
      using le_uint_nonneg by (auto simp: unpack_I_def unpack_le_def split: if_splits)
    have rb: "fst (read block_size (snd (read 4 f))) =
        take (nat block_size) (drop 4 (remaining f))"
      "remaining (snd (read block_size (snd (read 4 f)))) =
        drop (nat block_size) (drop 4 (remaining f))"
      using read_remaining [OF nn, of "snd (read 4 f)"] r4 by simp_all
    have rm: "fst (read (int (length p)) (snd (read block_size (snd (read 4 f))))) =
        take (length p) (drop (nat block_size) (drop 4 (remaining f)))"
      using read_remaining(1) [of "int (length p)" "snd (read block_size (snd (read 4 f)))"] rb
      by simp
    from False Inr show ?thesis
      by (subst blockfile_loop.simps)
         (simp add: case_prod_unfold r4 rb rm Let_def split: sum.splits)
  qed
qed

text \<open>The loop sees the file only through the bytes after the offset.\<close>

lemma blockfile_loop_remaining:
  "remaining f = remaining g \<Longrightarrow>
   blockfile_loop p f ret magic = blockfile_loop p g ret magic"
proof (induction p f ret magic arbitrary: g rule: blockfile_loop.induct)
  case (1 p f ret magic)
  note fg = \<open>remaining f = remaining g\<close>
  show ?case
  proof (cases "magic = [] \<or> magic \<noteq> p")
    case True
    then show ?thesis
      by (subst blockfile_loop_unfold, subst (2) blockfile_loop_unfold) auto
  next
    case False
    show ?thesis
    proof (cases "unpack_I (take 4 (remaining f))")
      case (Inl e)
      with False fg show ?thesis
        by (subst blockfile_loop_unfold, subst (2) blockfile_loop_unfold) simp
    next
      case (Inr block_size)
      then have nn: "0 \<le> block_size"
        using le_uint_nonneg by (auto simp: unpack_I_def unpack_le_def split: if_splits)
      have b4: "unpack_I (fst (read 4 f)) = Inr block_size"
        using Inr read_remaining(1) [of 4 f] by simp
      let ?f3 = "snd (read (int (length p)) (snd (read block_size (snd (read 4 f)))))"
      let ?g3 = "snd (read (int (length p)) (snd (read block_size (snd (read 4 g)))))"
      have rem: "remaining ?f3 = remaining ?g3"
        using fg nn by (simp add: read_remaining(2))
      show ?thesis
      proof (cases "Block_from_bytes
          (BytesIO_new (take (nat block_size) (drop 4 (remaining f))))")
        case (Inl e)
        with False Inr fg show ?thesis
          by (subst blockfile_loop_unfold, subst (2) blockfile_loop_unfold) simp
      next
        case blk: (Inr z)
        obtain b c where z: "z = (b, c)" by (cases z)
        have pay: "fst (read block_size (snd (read 4 f))) =
            take (nat block_size) (drop 4 (remaining f))"
          using nn by (simp add: read_remaining)
        have "blockfile_loop p ?f3 (ret @ [b])
            (fst (read (int (length p)) (snd (read block_size (snd (read 4 f)))))) =
          blockfile_loop p ?g3 (ret @ [b])
            (fst (read (int (length p)) (snd (read block_size (snd (read 4 f))))))"
          using False b4 blk z pay rem
          by (intro "1.IH" [where g = ?g3]) (auto simp: prod_eq_iff)
        moreover have "fst (read (int (length p)) (snd (read block_size (snd (read 4 f))))) =
            take (length p) (drop (nat block_size) (drop 4 (remaining f)))"
          using nn by (simp add: read_remaining)
        ultimately show ?thesis
          using False Inr blk z fg
          by (subst blockfile_loop_unfold, subst (2) blockfile_loop_unfold) simp
      qed
    qed
  qed
qed

text \<open>An error loses the accumulated blocks; a normal end returns them in front.\<close>

lemma blockfile_loop_acc:
  "blockfile_loop p f (r @ ret) magic =
     (case blockfile_loop p f ret magic of Inl e \<Rightarrow> Inl e | Inr bs \<Rightarrow> Inr (r @ bs))"
proof (induction p f ret magic arbitrary: r rule: blockfile_loop.induct)
  case (1 p f ret magic)
  show ?case
  proof (cases "magic = [] \<or> magic \<noteq> p")
    case True
    then show ?thesis
      by (subst blockfile_loop_unfold, subst (2) blockfile_loop_unfold) auto
  next
    case False
    show ?thesis
    proof (cases "unpack_I (take 4 (remaining f))")
      case (Inl e)
      with False show ?thesis
        by (subst blockfile_loop_unfold, subst (2) blockfile_loop_unfold) simp
    next
      case (Inr block_size)
      then have nn: "0 \<le> block_size"
        using le_uint_nonneg by (auto simp: unpack_I_def unpack_le_def split: if_splits)
      have b4: "unpack_I (fst (read 4 f)) = Inr block_size"
        using Inr read_remaining(1) [of 4 f] by simp
      let ?f3 = "snd (read (int (length p)) (snd (read block_size (snd (read 4 f)))))"
      let ?m3 = "fst (read (int (length p)) (snd (read block_size (snd (read 4 f)))))"
      show ?thesis
      proof (cases "Block_from_bytes
          (BytesIO_new (take (nat block_size) (drop 4 (remaining f))))")
        case (Inl e)
        with False Inr show ?thesis
          by (subst blockfile_loop_unfold, subst (2) blockfile_loop_unfold) simp
      next
        case blk: (Inr z)
        obtain b c where z: "z = (b, c)" by (cases z)
        have pay: "fst (read block_size (snd (read 4 f))) =
            take (nat block_size) (drop 4 (remaining f))"
          using nn by (simp add: read_remaining)
        have ih: "blockfile_loop p ?f3 (r @ ret @ [b]) ?m3 =
            (case blockfile_loop p ?f3 (ret @ [b]) ?m3 of
               Inl e \<Rightarrow> Inl e | Inr bs \<Rightarrow> Inr (r @ bs))"
          using False b4 blk z pay
          by (intro "1.IH") (auto simp: prod_eq_iff)
        have m3: "?m3 = take (length p) (drop (nat block_size) (drop 4 (remaining f)))"
          using nn by (simp add: read_remaining)
        from False have ne: "p \<noteq> []" "magic = p" by auto
        have "blockfile_loop p f (r @ ret) magic = blockfile_loop p ?f3 (r @ ret @ [b]) ?m3"
          using ne Inr blk z m3 by (subst blockfile_loop_unfold) simp
        moreover have "blockfile_loop p f ret magic = blockfile_loop p ?f3 (ret @ [b]) ?m3"
          using ne Inr blk z m3 by (subst blockfile_loop_unfold) simp
        ultimately show ?thesis using ih by simp
      qed
    qed
  qed
qed

lemma read_blockfile_loop:
  assumes "remaining f = drop (length p) file"
  shows "read_blockfile file p = blockfile_loop p f [] (take (length p) file)"
proof -
  let ?f1 = "snd (read (int (length p)) (BytesIO_new file))"
  have "remaining (BytesIO_new file) = file"
    by (simp add: remaining_def BytesIO_new_def)
  then have m: "fst (read (int (length p)) (BytesIO_new file)) = take (length p) file"
    and r: "remaining ?f1 = drop (length p) file"
    by (simp_all add: read_remaining)
  have "read_blockfile file p = blockfile_loop p ?f1 [] (take (length p) file)"
    using m by (simp add: read_blockfile_def case_prod_unfold Let_def)
  also have "\<dots> = blockfile_loop p f [] (take (length p) file)"
    by (rule blockfile_loop_remaining) (simp add: r assms)
  finally show ?thesis .
qed

text \<open>
  One record at the front of a file: the magic, a readable size field and a payload
  that decodes. The rest of the file is read from the byte after the declared size.
\<close>

lemma read_blockfile_step:
  assumes "p \<noteq> []" and "take (length p) file = p"
    and "unpack_I (take 4 (drop (length p) file)) = Inr block_size"
    and "Block_from_bytes
           (BytesIO_new (take (nat block_size) (drop (length p + 4) file))) = Inr (blk, c)"
  shows "read_blockfile file p =
     (case read_blockfile (drop (length p + 4 + nat block_size) file) p of
        Inl e \<Rightarrow> Inl e
      | Inr blks \<Rightarrow> Inr (blk # blks))"
proof -
  define f where "f = \<lparr>buf = file, pos = length p\<rparr>"
  have rf: "remaining f = drop (length p) file" by (simp add: f_def remaining_def)
  have nn: "0 \<le> block_size"
    using assms(3) le_uint_nonneg by (auto simp: unpack_I_def unpack_le_def split: if_splits)
  let ?rest = "drop (length p + 4 + nat block_size) file"
  let ?f3 = "snd (read (int (length p)) (snd (read block_size (snd (read 4 f)))))"
  have d1: "drop 4 (remaining f) = drop (length p + 4) file"
    using rf by (simp add: add.commute)
  have d2: "drop (nat block_size) (drop 4 (remaining f)) = ?rest"
    using d1 by (simp add: add.commute)
  have rem3: "remaining ?f3 = drop (length p) ?rest"
    using nn d2 by (simp add: read_remaining)
  have "read_blockfile file p = blockfile_loop p f [] p"
    using read_blockfile_loop [OF rf] assms(2) by simp
  also have "\<dots> = blockfile_loop p ?f3 [blk] (take (length p) ?rest)"
    using assms(1) assms(3) [folded rf] assms(4) [folded d1] d2
    by (subst blockfile_loop_unfold) simp
  also have "\<dots> = (case blockfile_loop p ?f3 [] (take (length p) ?rest) of
        Inl e \<Rightarrow> Inl e | Inr bs \<Rightarrow> Inr ([blk] @ bs))"
    using blockfile_loop_acc [of p ?f3 "[blk]" "[]" "take (length p) ?rest"] by simp
  also have "blockfile_loop p ?f3 [] (take (length p) ?rest) = read_blockfile ?rest p"
    using read_blockfile_loop [OF rem3] by simp
  finally show ?thesis by (simp split: sum.splits)
qed

lemma read_blockfile_Nil: "read_blockfile [] p = Inr []"
  by (simp add: read_blockfile_def read_def Let_def remaining_def BytesIO_new_def
        blockfile_loop.simps)

lemma read_blockfile_mismatch:
  assumes "file \<noteq> []" and "p \<noteq> []" and "take (length p) file \<noteq> p"
  shows "read_blockfile file p = Inl AssertionError"
proof -
  have "remaining \<lparr>buf = file, pos = length p\<rparr> = drop (length p) file"
    by (simp add: remaining_def)
  from read_blockfile_loop [OF this] assms show ?thesis
    by (subst (asm) blockfile_loop_unfold) simp
qed

lemma read_blockfile_no_size:
  assumes "p \<noteq> []" and "take (length p) file = p" and "length file < length p + 4"
  shows "read_blockfile file p = Inl StructError"
proof -
  have r: "remaining \<lparr>buf = file, pos = length p\<rparr> = drop (length p) file"
    by (simp add: remaining_def)
  have "unpack_I (take 4 (drop (length p) file)) = Inl StructError"
    using assms(3) by (simp add: unpack_I_def unpack_le_def)
  with read_blockfile_loop [OF r] assms(1,2) r show ?thesis
    by (subst (asm) blockfile_loop_unfold) simp
qed

lemma read_blockfile_block_error:
  assumes "p \<noteq> []" and "take (length p) file = p"
    and "unpack_I (take 4 (drop (length p) file)) = Inr block_size"
    and "Block_from_bytes
           (BytesIO_new (take (nat block_size) (drop (length p + 4) file))) = Inl e"
  shows "read_blockfile file p = Inl e"
proof -
  have r: "remaining \<lparr>buf = file, pos = length p\<rparr> = drop (length p) file"
    by (simp add: remaining_def)
  have d: "drop 4 (drop (length p) file) = drop (length p + 4) file"
    by (simp add: add.commute)
  from read_blockfile_loop [OF r] assms(1,2,3) assms(4) [folded d] r show ?thesis
    by (subst (asm) blockfile_loop_unfold) simp
qed

subsection \<open>Moving the cursor\<close>

text \<open>\<open>advance k s\<close> is the cursor \<open>s\<close> moved forward by \<open>k\<close> bytes.\<close>

definition advance :: "nat \<Rightarrow> BytesIO \<Rightarrow> BytesIO" where
  "advance k s = s\<lparr>pos := pos s + k\<rparr>"

lemma advance_advance: "advance j (advance k s) = advance (k + j) s"
  by (simp add: advance_def add.assoc)

lemma remaining_advance: "remaining (advance k s) = drop k (remaining s)"
  by (simp add: advance_def remaining_pos_update)

lemma buf_advance: "buf (advance k s) = buf s"
  by (simp add: advance_def)

lemma pos_advance: "pos (advance k s) = pos s + k"
  by (simp add: advance_def)

lemma read_advance:
  assumes "remaining s = bs @ rest" and "n = int (length bs)"
  shows "read n s = (bs, advance (length bs) s)"
    and "remaining (advance (length bs) s) = rest"
  using read_prefix [OF assms] by (simp_all add: advance_def)

lemma read_compact_size_zero:
  "remaining s = 0 # rest \<Longrightarrow> read_compact_size s = Inr (0, advance 1 s)"
  by (simp add: read_compact_size_def read_def Let_def unpack_B_def unpack_le_def
        assert_le_ceiling_def advance_def)

subsection \<open>A smallest block\<close>

text \<open>A header whose seven fixed fields are all there, followed by an empty solution.\<close>

lemma BlockHeader_from_bytes_fields:
  assumes rem: "remaining s = v @ hp @ hr @ he @ t @ b @ n @ 0 # rest"
    and len: "length v = 4" "length hp = 32" "length hr = 32" "length he = 32"
      "length t = 4" "length b = 4" "length n = 32"
  shows "BlockHeader_from_bytes s =
     Inr (\<lparr>header_version = v, hash_prev = hp, hash_root = hr, hash_extra = he,
           header_time = t, bits = b, nonce = n, solution = []\<rparr>,
          advance 141 s)"
    and "remaining (advance 141 s) = rest"
proof -
  have r1: "read 4 s = (v, advance 4 s)"
    "remaining (advance 4 s) = hp @ hr @ he @ t @ b @ n @ 0 # rest"
    using read_advance [OF rem, of 4] len by simp_all
  have r2: "read 32 (advance 4 s) = (hp, advance 36 s)"
    "remaining (advance 36 s) = hr @ he @ t @ b @ n @ 0 # rest"
    using read_advance [OF r1(2), of 32] len by (simp_all add: advance_advance)
  have r3: "read 32 (advance 36 s) = (hr, advance 68 s)"
    "remaining (advance 68 s) = he @ t @ b @ n @ 0 # rest"
    using read_advance [OF r2(2), of 32] len by (simp_all add: advance_advance)
  have r4: "read 32 (advance 68 s) = (he, advance 100 s)"
    "remaining (advance 100 s) = t @ b @ n @ 0 # rest"
    using read_advance [OF r3(2), of 32] len by (simp_all add: advance_advance)
  have r5: "read 4 (advance 100 s) = (t, advance 104 s)"
    "remaining (advance 104 s) = b @ n @ 0 # rest"
    using read_advance [OF r4(2), of 4] len by (simp_all add: advance_advance)
  have r6: "read 4 (advance 104 s) = (b, advance 108 s)"
    "remaining (advance 108 s) = n @ 0 # rest"
    using read_advance [OF r5(2), of 4] len by (simp_all add: advance_advance)
  have r7: "read 32 (advance 108 s) = (n, advance 140 s)"
    "remaining (advance 140 s) = 0 # rest"
    using read_advance [OF r6(2), of 32] len by (simp_all add: advance_advance)
  have r8: "read_compact_size (advance 140 s) = Inr (0, advance 141 s)"
    using read_compact_size_zero [OF r7(2)] by (simp add: advance_advance)
  have r9: "read 0 (advance 141 s) = ([], advance 141 s)"
    by (simp add: read_def)
  show "BlockHeader_from_bytes s =
     Inr (\<lparr>header_version = v, hash_prev = hp, hash_root = hr, hash_extra = he,
           header_time = t, bits = b, nonce = n, solution = []\<rparr>,
          advance 141 s)"
    unfolding BlockHeader_from_bytes_def read_bytes_def
    by (simp add: r1 r2 r3 r4 r5 r6 r7 r8 r9)
  show "remaining (advance 141 s) = rest"
    using r7(2) remaining_advance [of 1 "advance 140 s"] by (simp add: advance_advance)
qed

text \<open>
  A payload with such a header and no transactions, and the block it decodes to. Bytes
  after the transaction count are not looked at.
\<close>

lemma Block_from_bytes_no_transactions:
  assumes "payload = v @ hp @ hr @ he @ t @ b @ n @ 0 # 0 # extra"
    and len: "length v = 4" "length hp = 32" "length hr = 32" "length he = 32"
      "length t = 4" "length b = 4" "length n = 32"
  shows "Block_from_bytes (BytesIO_new payload) =
     Inr (\<lparr>header = \<lparr>header_version = v, hash_prev = hp, hash_root = hr, hash_extra = he,
                      header_time = t, bits = b, nonce = n, solution = []\<rparr>,
           transactions = []\<rparr>,
          \<lparr>buf = payload, pos = 142\<rparr>)"
proof -
  let ?s = "BytesIO_new payload"
  have rem: "remaining ?s = v @ hp @ hr @ he @ t @ b @ n @ 0 # (0 # extra)"
    using assms(1) by (simp add: remaining_def BytesIO_new_def)
  note h = BlockHeader_from_bytes_fields [OF rem len]
  have "read_compact_size (advance 141 ?s) = Inr (0, advance 142 ?s)"
    using read_compact_size_zero [OF h(2)] by (simp add: advance_advance)
  moreover have "advance 142 ?s = \<lparr>buf = payload, pos = 142\<rparr>"
    by (simp add: advance_def BytesIO_new_def)
  ultimately show ?thesis
    using h(1) by (simp add: Block_from_bytes_def read_vector_def)
qed

text \<open>Sample data: a payload with seven distinguishable header fields, and its block.\<close>

definition sample_payload :: "byte list \<Rightarrow> byte list" where
  "sample_payload extra =
     replicate 4 1 @ replicate 32 2 @ replicate 32 3 @ replicate 32 4 @ replicate 4 5 @
     replicate 4 6 @ replicate 32 7 @ 0 # 0 # extra"

definition sample_block :: Block where
  "sample_block =
     \<lparr>header = \<lparr>header_version = replicate 4 1, hash_prev = replicate 32 2,
                hash_root = replicate 32 3, hash_extra = replicate 32 4,
                header_time = replicate 4 5, bits = replicate 4 6, nonce = replicate 32 7,
                solution = []\<rparr>,
      transactions = []\<rparr>"

lemma length_sample_payload: "length (sample_payload extra) = 142 + length extra"
  by (simp add: sample_payload_def)

lemma Block_from_bytes_sample:
  "Block_from_bytes (BytesIO_new (sample_payload extra)) =
     Inr (sample_block, \<lparr>buf = sample_payload extra, pos = 142\<rparr>)"
  unfolding sample_block_def
  by (rule Block_from_bytes_no_transactions [OF sample_payload_def]) simp_all

subsection \<open>Records of a block file\<close>

text \<open>
  The layout of a block file: records of magic, four size bytes and payload, one after
  the other. A record is good when its size field holds the payload's length and the
  payload decodes to the block given with it.
\<close>

fun record_stream :: "byte list \<Rightarrow> (byte list \<times> byte list \<times> Block) list \<Rightarrow> byte list" where
  "record_stream magic [] = []"
| "record_stream magic ((sz, payload, blk) # recs) =
     magic @ sz @ payload @ record_stream magic recs"

fun good_record :: "byte list \<times> byte list \<times> Block \<Rightarrow> bool" where
  "good_record (sz, payload, blk) =
     (length sz = 4 \<and> le_uint sz = int (length payload) \<and>
      map_sum id fst (Block_from_bytes (BytesIO_new payload)) = Inr blk)"

lemma read_blockfile_records:
  assumes "p \<noteq> []" and "list_all good_record recs"
  shows "read_blockfile (record_stream p recs @ tail) p =
     (case read_blockfile tail p of
        Inl e \<Rightarrow> Inl e
      | Inr blks \<Rightarrow> Inr (map (\<lambda>(sz, payload, blk). blk) recs @ blks))"
  using assms(2)
proof (induction recs)
  case Nil
  show ?case by (simp split: sum.splits)
next
  case (Cons r recs)
  obtain sz payload blk where r: "r = (sz, payload, blk)" by (cases r)
  let ?rest = "record_stream p recs @ tail"
  let ?file = "p @ sz @ payload @ ?rest"
  from Cons.prems r have sz: "length sz = 4" "le_uint sz = int (length payload)"
    and dec: "map_sum id fst (Block_from_bytes (BytesIO_new payload)) = Inr blk"
    by simp_all
  from dec obtain c where c: "Block_from_bytes (BytesIO_new payload) = Inr (blk, c)"
    by (cases "Block_from_bytes (BytesIO_new payload)") auto
  have h3: "unpack_I (take 4 (drop (length p) ?file)) = Inr (int (length payload))"
    using sz by (simp add: unpack_I_def unpack_le_def)
  have h4: "Block_from_bytes (BytesIO_new
      (take (nat (int (length payload))) (drop (length p + 4) ?file))) = Inr (blk, c)"
    using sz c by simp
  have "drop (length p + 4 + nat (int (length payload))) ?file = ?rest"
    using sz by simp
  with read_blockfile_step [OF assms(1) _ h3 h4]
  have "read_blockfile ?file p =
     (case read_blockfile ?rest p of Inl e \<Rightarrow> Inl e | Inr blks \<Rightarrow> Inr (blk # blks))"
    by simp
  moreover from Cons have "read_blockfile ?rest p =
     (case read_blockfile tail p of
        Inl e \<Rightarrow> Inl e
      | Inr blks \<Rightarrow> Inr (map (\<lambda>(sz, payload, blk). blk) recs @ blks))"
    by simp
  ultimately show ?case using r by (simp split: sum.splits)
qed

lemma good_record_sample: "good_record ([142, 0, 0, 0], sample_payload [], sample_block)"
  by (simp add: length_sample_payload Block_from_bytes_sample)

text \<open>
  C7: after any number of good records, when the payload of the record that starts
  \<open>file\<close> decodes, the reader goes on with the bytes at magic length + 4 + declared size
  from the start of that record, wherever the block decoder's own cursor \<open>c\<close> stopped;
  unconsumed payload bytes are neither an error nor read again. The block is put after
  those of the earlier records and in front of what the rest of the file gives.
\<close>

theorem read_blockfile_next_record:
  assumes "expected_prefix \<noteq> []" and "list_all good_record recs"
    and "take (length expected_prefix) file = expected_prefix"
    and "unpack_I (take 4 (drop (length expected_prefix) file)) = Inr block_size"
    and "Block_from_bytes
           (BytesIO_new (take (nat block_size) (drop (length expected_prefix + 4) file))) =
         Inr (blk, c)"
  shows "read_blockfile (record_stream expected_prefix recs @ file) expected_prefix =
     (case read_blockfile (drop (length expected_prefix + 4 + nat block_size) file)
             expected_prefix of
        Inl e \<Rightarrow> Inl e
      | Inr blks \<Rightarrow> Inr (map (\<lambda>(sz, payload, blk). blk) recs @ blk # blks))"
  using read_blockfile_records [OF assms(1,2), where tail = "file"]
    read_blockfile_step [OF assms(1,3,4,5)]
  by (simp split: sum.splits)

lemma read_blockfile_sample_last:
  "read_blockfile ([250, 26] @ [142, 0, 0, 0] @ sample_payload []) [250, 26] =
     Inr [sample_block]"
proof -
  let ?file = "[250, 26] @ [142, 0, 0, 0] @ sample_payload []"
  have "read_blockfile ?file [250, 26] =
     (case read_blockfile (drop (length [250 :: byte, 26] + 4 + nat 142) ?file) [250, 26] of
        Inl e \<Rightarrow> Inl e
      | Inr blks \<Rightarrow> Inr (sample_block # blks))"
    by (rule read_blockfile_step [where c = "\<lparr>buf = sample_payload [], pos = 142\<rparr>"])
       (simp_all add: unpack_I_def unpack_le_def length_sample_payload
          Block_from_bytes_sample)
  then show ?thesis
    by (simp add: length_sample_payload read_blockfile_Nil)
qed

theorem read_blockfile_next_record_witness:
  "[250 :: byte, 26] \<noteq> [] \<and>
   list_all good_record [([142, 0, 0, 0], sample_payload [], sample_block)] \<and>
   take (length [250 :: byte, 26])
     ([250, 26] @ [146, 0, 0, 0] @ sample_payload [9, 9, 9, 9] @
      [250, 26] @ [142, 0, 0, 0] @ sample_payload []) = [250, 26] \<and>
   unpack_I (take 4 (drop (length [250 :: byte, 26])
     ([250, 26] @ [146, 0, 0, 0] @ sample_payload [9, 9, 9, 9] @
      [250, 26] @ [142, 0, 0, 0] @ sample_payload []))) = Inr 146 \<and>
   Block_from_bytes (BytesIO_new (take (nat 146) (drop (length [250 :: byte, 26] + 4)
     ([250, 26] @ [146, 0, 0, 0] @ sample_payload [9, 9, 9, 9] @
      [250, 26] @ [142, 0, 0, 0] @ sample_payload [])))) =
     Inr (sample_block, \<lparr>buf = sample_payload [9, 9, 9, 9], pos = 142\<rparr>) \<and>
   read_blockfile
     (record_stream [250, 26] [([142, 0, 0, 0], sample_payload [], sample_block)] @
      [250, 26] @ [146, 0, 0, 0] @ sample_payload [9, 9, 9, 9] @
      [250, 26] @ [142, 0, 0, 0] @ sample_payload []) [250, 26] =
     Inr [sample_block, sample_block, sample_block]"
proof -
  let ?p = "[250 :: byte, 26]"
  let ?file = "?p @ [146, 0, 0, 0] @ sample_payload [9, 9, 9, 9] @
      ?p @ [142, 0, 0, 0] @ sample_payload []"
  have h1: "?p \<noteq> []" by simp
  have h2: "list_all good_record [([142, 0, 0, 0], sample_payload [], sample_block)]"
    using good_record_sample by simp
  have h3: "take (length ?p) ?file = ?p" by simp
  have h4: "unpack_I (take 4 (drop (length ?p) ?file)) = Inr 146"
    by (simp add: unpack_I_def unpack_le_def)
  have h5: "Block_from_bytes (BytesIO_new (take (nat 146) (drop (length ?p + 4) ?file))) =
      Inr (sample_block, \<lparr>buf = sample_payload [9, 9, 9, 9], pos = 142\<rparr>)"
    by (simp add: length_sample_payload Block_from_bytes_sample)
  have "drop (length ?p + 4 + nat 146) ?file = ?p @ [142, 0, 0, 0] @ sample_payload []"
    by (simp add: length_sample_payload)
  with read_blockfile_next_record [OF h1 h2 h3 h4 h5] read_blockfile_sample_last
  have "read_blockfile
     (record_stream ?p [([142, 0, 0, 0], sample_payload [], sample_block)] @ ?file) ?p =
     Inr [sample_block, sample_block, sample_block]"
    by simp
  with h1 h2 h3 h4 h5 show ?thesis by blast
qed

text \<open>
  C8: after any number of good records, bytes that are there but are not the expected
  magic (a partial magic at the end of the file included) make the whole read fail with
  \<^verbatim>\<open>AssertionError\<close>, and none of the blocks decoded so far is returned; a file that
  ends at a record boundary gives the blocks of its records in file order.
\<close>

theorem read_blockfile_magic_mismatch:
  assumes "expected_prefix \<noteq> []" and "list_all good_record recs"
  shows "(tail \<noteq> [] \<and> take (length expected_prefix) tail \<noteq> expected_prefix \<longrightarrow>
      read_blockfile (record_stream expected_prefix recs @ tail) expected_prefix =
        Inl AssertionError) \<and>
     read_blockfile (record_stream expected_prefix recs) expected_prefix =
       Inr (map (\<lambda>(sz, payload, blk). blk) recs)"
proof (intro conjI impI)
  assume "tail \<noteq> [] \<and> take (length expected_prefix) tail \<noteq> expected_prefix"
  then have "read_blockfile tail expected_prefix = Inl AssertionError"
    using assms(1) by (simp add: read_blockfile_mismatch)
  then show "read_blockfile (record_stream expected_prefix recs @ tail) expected_prefix =
      Inl AssertionError"
    using read_blockfile_records [OF assms, of tail] by simp
next
  show "read_blockfile (record_stream expected_prefix recs) expected_prefix =
      Inr (map (\<lambda>(sz, payload, blk). blk) recs)"
    using read_blockfile_records [OF assms, of "[]"] by (simp add: read_blockfile_Nil)
qed

theorem read_blockfile_magic_mismatch_witness:
  "[250 :: byte, 26] \<noteq> [] \<and>
   list_all good_record [([142, 0, 0, 0], sample_payload [], sample_block)] \<and>
   [250 :: byte] \<noteq> [] \<and> take (length [250 :: byte, 26]) [250] \<noteq> [250 :: byte, 26] \<and>
   read_blockfile
     (record_stream [250, 26] [([142, 0, 0, 0], sample_payload [], sample_block)] @ [250])
     [250, 26] = Inl AssertionError \<and>
   read_blockfile
     (record_stream [250, 26] [([142, 0, 0, 0], sample_payload [], sample_block)])
     [250, 26] = Inr [sample_block]"
proof -
  have h1: "[250 :: byte, 26] \<noteq> []" by simp
  have h2: "list_all good_record [([142, 0, 0, 0], sample_payload [], sample_block)]"
    using good_record_sample by simp
  have h3: "[250 :: byte] \<noteq> [] \<and> take (length [250 :: byte, 26]) [250] \<noteq> [250 :: byte, 26]"
    by simp
  from read_blockfile_magic_mismatch [OF h1 h2, of "[250]"] h3
  have "read_blockfile
     (record_stream [250, 26] [([142, 0, 0, 0], sample_payload [], sample_block)] @ [250])
     [250, 26] = Inl AssertionError"
    and "read_blockfile
     (record_stream [250, 26] [([142, 0, 0, 0], sample_payload [], sample_block)])
     [250, 26] = Inr [sample_block]"
    by simp_all
  with h1 h2 h3 show ?thesis by blast
qed

text \<open>
  C2 as stated fails for the payload: \<^verbatim>\<open>f.read(size)\<close> returns what is left of the
  file without raising, and the block decoder is run on it. A record that declares 200
  payload bytes but has only the 142 bytes of a block is read without an error.
\<close>

theorem read_blockfile_short_payload_counterexample:
  "read_blockfile ([250, 26] @ [200, 0, 0, 0] @ sample_payload []) [250, 26] =
     Inr [sample_block]"
proof -
  let ?file = "[250, 26] @ [200, 0, 0, 0] @ sample_payload []"
  have "read_blockfile ?file [250, 26] =
     (case read_blockfile (drop (length [250 :: byte, 26] + 4 + nat 200) ?file) [250, 26] of
        Inl e \<Rightarrow> Inl e
      | Inr blks \<Rightarrow> Inr (sample_block # blks))"
    by (rule read_blockfile_step [where c = "\<lparr>buf = sample_payload [], pos = 142\<rparr>"])
       (simp_all add: unpack_I_def unpack_le_def length_sample_payload
          Block_from_bytes_sample)
  then show ?thesis
    by (simp add: length_sample_payload read_blockfile_Nil)
qed

text \<open>
  C2 as amended: after any number of good records, a file that ends after a complete
  magic with fewer than four bytes of size field fails the whole read with
  \<^verbatim>\<open>struct.error\<close> and returns no blocks. A last record whose payload is cut short
  by the end of the file is not rejected for that: the bytes that are there go to the
  block decoder, the read fails with the decoder's error if the decoder fails on them,
  and otherwise returns the block.
\<close>

theorem read_blockfile_truncated:
  assumes "expected_prefix \<noteq> []" and "list_all good_record recs"
  shows "(length t < 4 \<longrightarrow>
      read_blockfile (record_stream expected_prefix recs @ expected_prefix @ t)
        expected_prefix = Inl StructError) \<and>
     (length sz = 4 \<and> int (length payload) \<le> le_uint sz \<longrightarrow>
      read_blockfile (record_stream expected_prefix recs @ expected_prefix @ sz @ payload)
        expected_prefix =
        (case Block_from_bytes (BytesIO_new payload) of
           Inl e \<Rightarrow> Inl e
         | Inr (blk, c) \<Rightarrow> Inr (map (\<lambda>(sz, payload, blk). blk) recs @ [blk])))"
proof (intro conjI impI)
  assume "length t < 4"
  then have "read_blockfile (expected_prefix @ t) expected_prefix = Inl StructError"
    using assms(1) by (simp add: read_blockfile_no_size)
  then show "read_blockfile (record_stream expected_prefix recs @ expected_prefix @ t)
      expected_prefix = Inl StructError"
    using read_blockfile_records [OF assms, of "expected_prefix @ t"] by simp
next
  assume a: "length sz = 4 \<and> int (length payload) \<le> le_uint sz"
  let ?p = expected_prefix
  let ?last = "?p @ sz @ payload"
  have h3: "unpack_I (take 4 (drop (length ?p) ?last)) = Inr (le_uint sz)"
    using a by (simp add: unpack_I_def unpack_le_def)
  from a have le: "length payload \<le> nat (le_uint sz)" by linarith
  have pay: "take (nat (le_uint sz)) (drop (length ?p + 4) ?last) = payload"
    using a le by simp
  have rest: "drop (length ?p + 4 + nat (le_uint sz)) ?last = []"
    using a le by simp
  have "read_blockfile ?last ?p =
      (case Block_from_bytes (BytesIO_new payload) of
         Inl e \<Rightarrow> Inl e
       | Inr (blk, c) \<Rightarrow> Inr [blk])"
  proof (cases "Block_from_bytes (BytesIO_new payload)")
    case (Inl e)
    then show ?thesis
      using read_blockfile_block_error [OF assms(1) _ h3, of e] pay by simp
  next
    case (Inr z)
    obtain blk c where z: "z = (blk, c)" by (cases z)
    with Inr show ?thesis
      using read_blockfile_step [OF assms(1) _ h3, of blk c] pay rest
      by (simp add: read_blockfile_Nil)
  qed
  then show "read_blockfile (record_stream ?p recs @ ?p @ sz @ payload) ?p =
      (case Block_from_bytes (BytesIO_new payload) of
         Inl e \<Rightarrow> Inl e
       | Inr (blk, c) \<Rightarrow> Inr (map (\<lambda>(sz, payload, blk). blk) recs @ [blk]))"
    using read_blockfile_records [OF assms, of ?last]
    by (simp split: sum.splits prod.splits)
qed

theorem read_blockfile_truncated_witness:
  "[250 :: byte, 26] \<noteq> [] \<and>
   list_all good_record [([142, 0, 0, 0], sample_payload [], sample_block)] \<and>
   length ([1, 0] :: byte list) < 4 \<and>
   read_blockfile
     (record_stream [250, 26] [([142, 0, 0, 0], sample_payload [], sample_block)] @
      [250, 26] @ [1, 0]) [250, 26] = Inl StructError \<and>
   length ([200, 0, 0, 0] :: byte list) = 4 \<and>
   int (length (sample_payload [])) \<le> le_uint [200, 0, 0, 0] \<and>
   read_blockfile
     (record_stream [250, 26] [([142, 0, 0, 0], sample_payload [], sample_block)] @
      [250, 26] @ [200, 0, 0, 0] @ sample_payload []) [250, 26] =
     Inr [sample_block, sample_block]"
proof -
  have h1: "[250 :: byte, 26] \<noteq> []" by simp
  have h2: "list_all good_record [([142, 0, 0, 0], sample_payload [], sample_block)]"
    using good_record_sample by simp
  have h3: "length ([1, 0] :: byte list) < 4" by simp
  have h4: "length ([200, 0, 0, 0] :: byte list) = 4 \<and>
      int (length (sample_payload [])) \<le> le_uint [200, 0, 0, 0]"
    by (simp add: length_sample_payload)
  from read_blockfile_truncated [OF h1 h2, of "[1, 0]"] h3
  have a: "read_blockfile
     (record_stream [250, 26] [([142, 0, 0, 0], sample_payload [], sample_block)] @
      [250, 26] @ [1, 0]) [250, 26] = Inl StructError"
    by blast
  from read_blockfile_truncated [OF h1 h2, of _ "[200, 0, 0, 0]" "sample_payload []"] h4
  have "read_blockfile
     (record_stream [250, 26] [([142, 0, 0, 0], sample_payload [], sample_block)] @
      [250, 26] @ [200, 0, 0, 0] @ sample_payload []) [250, 26] =
     (case Block_from_bytes (BytesIO_new (sample_payload [])) of
        Inl e \<Rightarrow> Inl e
      | Inr (blk, c) \<Rightarrow>
          Inr (map (\<lambda>(sz, payload, blk). blk)
                 [([142 :: byte, 0, 0, 0], sample_payload [], sample_block)] @ [blk]))"
    by blast
  then have b: "read_blockfile
     (record_stream [250, 26] [([142, 0, 0, 0], sample_payload [], sample_block)] @
      [250, 26] @ [200, 0, 0, 0] @ sample_payload []) [250, 26] =
     Inr [sample_block, sample_block]"
    by (simp add: Block_from_bytes_sample)
  from h1 h2 h3 h4 a b show ?thesis by blast
qed

subsection \<open>JoinSplit\<close>

text \<open>
  \<open>skip k s\<close> is the cursor \<open>s\<close> moved forward by \<open>k\<close> bytes, or to the end of the
  buffer when fewer than \<open>k\<close> bytes remain: where a run of reads leaves the cursor.
\<close>

definition skip :: "nat \<Rightarrow> BytesIO \<Rightarrow> BytesIO" where
  "skip k s = s\<lparr>pos := pos s + min k (length (remaining s))\<rparr>"

lemma skip_0: "skip 0 s = s"
  by (simp add: skip_def)

lemma remaining_skip: "remaining (skip k s) = drop k (remaining s)"
proof (cases "k \<le> length (remaining s)")
  case True
  then show ?thesis by (simp add: skip_def remaining_pos_update min_def)
next
  case False
  then show ?thesis by (simp add: skip_def remaining_pos_update min_def)
qed

lemma read_skip:
  "0 \<le> n \<Longrightarrow>
   read n (skip k s) = (take (nat n) (drop k (remaining s)), skip (k + nat n) s)"
  by (simp add: read_def Let_def remaining_skip) (auto simp: skip_def remaining_def min_def)

lemma skip_enough: "k \<le> length (remaining s) \<Longrightarrow> skip k s = s\<lparr>pos := pos s + k\<rparr>"
  by (simp add: skip_def min_def)

lemma read_list_2:
  "read_list 2 k s =
     (let (a, s1) = read k s; (b, s2) = read k s1 in ([a, b], s2))"
  by (simp add: numeral_2_eq_2 case_prod_unfold Let_def)

text \<open>
  The field layout of a JoinSplit as slices of the bytes \<open>r\<close> at the cursor, at the
  fixed offsets 0, 8, 16, 48, 112, 176, 208, 240, 304 (the eight proof pairs), 600 and
  1201; the layout ends at 1802.
\<close>

definition JoinSplit_layout :: "byte list \<Rightarrow> JoinSplit" where
  "JoinSplit_layout r =
     \<lparr>vpub_old = le_uint (take 8 r),
      vpub_new = le_uint (take 8 (drop 8 r)),
      anchor = take 32 (drop 16 r),
      nullifiers = [take 32 (drop 48 r), take 32 (drop 80 r)],
      commitments = [take 32 (drop 112 r), take 32 (drop 144 r)],
      ephemeral_key = take 32 (drop 176 r),
      random_seed = take 32 (drop 208 r),
      macs = [take 32 (drop 240 r), take 32 (drop 272 r)],
      js_proof =
        [[take 1 (drop 304 r), take 32 (drop 305 r)],
         [take 1 (drop 337 r), take 32 (drop 338 r)],
         [take 1 (drop 370 r), take 64 (drop 371 r)],
         [take 1 (drop 435 r), take 32 (drop 436 r)],
         [take 1 (drop 468 r), take 32 (drop 469 r)],
         [take 1 (drop 501 r), take 32 (drop 502 r)],
         [take 1 (drop 534 r), take 32 (drop 535 r)],
         [take 1 (drop 567 r), take 32 (drop 568 r)]],
      ciphertexts = [take 601 (drop 600 r), take 601 (drop 1201 r)]\<rparr>"

lemma JoinSplit_from_bytes_layout:
  assumes "16 \<le> length (remaining s)"
  shows "JoinSplit_from_bytes s = Inr (JoinSplit_layout (remaining s), skip 1802 s)"
proof -
  have "JoinSplit_from_bytes (skip 0 s) =
      Inr (JoinSplit_layout (remaining s), skip 1802 s)"
    using assms
    by (simp add: JoinSplit_from_bytes_def read_skip read_list_2 read_pair_def
          unpack_Q_def unpack_le_def JoinSplit_layout_def)
  then show ?thesis by (simp add: skip_0)
qed

lemma JoinSplit_from_bytes_short:
  assumes "length (remaining s) < 16"
  shows "JoinSplit_from_bytes s = Inl StructError"
proof -
  have r1: "read 8 s = (take 8 (remaining s), skip 8 s)"
    using read_skip [of 8 0 s] by (simp add: skip_0)
  have r2: "read 8 (skip 8 s) = (take 8 (drop 8 (remaining s)), skip 16 s)"
    using read_skip [of 8 8 s] by simp
  have "length (take 8 (drop 8 (remaining s))) \<noteq> 8"
    using assms by simp
  then have u2: "unpack_Q (take 8 (drop 8 (remaining s))) = Inl StructError"
    by (simp only: unpack_Q_def unpack_le_def if_False)
  show ?thesis
  proof (cases "unpack_Q (take 8 (remaining s))")
    case (Inl e)
    then have "e = StructError"
      by (auto simp: unpack_Q_def unpack_le_def split: if_splits)
    with Inl show ?thesis by (simp add: JoinSplit_from_bytes_def r1)
  next
    case (Inr v)
    then show ?thesis by (simp add: JoinSplit_from_bytes_def r1 r2 u2)
  qed
qed

lemma le_uint_replicate_zero: "le_uint (replicate n 0) = 0"
  by (induction n) simp_all

text \<open>
  C3 as stated fails for short buffers: only the two 8-byte values at the front are
  unpacked, every other field is a raw \<^verbatim>\<open>stream.read\<close>. A buffer of 1801 bytes
  decodes; the second ciphertext is one byte short.
\<close>

theorem JoinSplit_from_bytes_1801_counterexample:
  "JoinSplit_from_bytes (BytesIO_new (replicate 1801 0)) =
     Inr (\<lparr>vpub_old = 0, vpub_new = 0, anchor = replicate 32 0,
           nullifiers = [replicate 32 0, replicate 32 0],
           commitments = [replicate 32 0, replicate 32 0],
           ephemeral_key = replicate 32 0, random_seed = replicate 32 0,
           macs = [replicate 32 0, replicate 32 0],
           js_proof =
             [[replicate 1 0, replicate 32 0], [replicate 1 0, replicate 32 0],
              [replicate 1 0, replicate 64 0], [replicate 1 0, replicate 32 0],
              [replicate 1 0, replicate 32 0], [replicate 1 0, replicate 32 0],
              [replicate 1 0, replicate 32 0], [replicate 1 0, replicate 32 0]],
           ciphertexts = [replicate 601 0, replicate 600 0]\<rparr>,
          \<lparr>buf = replicate 1801 0, pos = 1801\<rparr>)"
proof -
  have r: "remaining (BytesIO_new (replicate 1801 0)) = replicate 1801 0"
    by (simp add: remaining_def BytesIO_new_def)
  have "JoinSplit_from_bytes (BytesIO_new (replicate 1801 0)) =
      Inr (JoinSplit_layout (replicate 1801 0), skip 1802 (BytesIO_new (replicate 1801 0)))"
    using JoinSplit_from_bytes_layout [of "BytesIO_new (replicate 1801 0)"] r by simp
  moreover have "skip 1802 (BytesIO_new (replicate 1801 0)) =
      \<lparr>buf = replicate 1801 0, pos = 1801\<rparr>"
    using r by (simp add: skip_def) (simp add: BytesIO_new_def)
  moreover have "JoinSplit_layout (replicate 1801 0) =
      \<lparr>vpub_old = 0, vpub_new = 0, anchor = replicate 32 0,
       nullifiers = [replicate 32 0, replicate 32 0],
       commitments = [replicate 32 0, replicate 32 0],
       ephemeral_key = replicate 32 0, random_seed = replicate 32 0,
       macs = [replicate 32 0, replicate 32 0],
       js_proof =
         [[replicate 1 0, replicate 32 0], [replicate 1 0, replicate 32 0],
          [replicate 1 0, replicate 64 0], [replicate 1 0, replicate 32 0],
          [replicate 1 0, replicate 32 0], [replicate 1 0, replicate 32 0],
          [replicate 1 0, replicate 32 0], [replicate 1 0, replicate 32 0]],
       ciphertexts = [replicate 601 0, replicate 600 0]\<rparr>"
    unfolding JoinSplit_layout_def
    by (simp add: le_uint_replicate_zero del: replicate_Suc replicate.simps)
  ultimately show ?thesis by simp
qed

text \<open>
  C3 as amended: with at least 1802 bytes at the cursor, \<^verbatim>\<open>JoinSplit.from_bytes\<close>
  succeeds, moves the cursor by exactly 1802 and fills the fields from the fixed layout:
  2 nullifiers, 2 commitments and 2 macs of 32 bytes, 8 proof pairs of a 1-byte flag and
  a payload of 32, 32, 64, 32, 32, 32, 32, 32 bytes, 2 ciphertexts of 601 bytes; no
  count or length comes from the input. With fewer than 16 bytes it fails with
  \<^verbatim>\<open>struct.error\<close>. With 16 to 1801 bytes it does not fail: it returns the same
  layout with the fields past the end of the buffer cut short or empty, and leaves the
  cursor at the end of the buffer.
\<close>

theorem JoinSplit_from_bytes_fixed:
  "(1802 \<le> length (remaining s) \<longrightarrow>
      JoinSplit_from_bytes s =
        Inr (JoinSplit_layout (remaining s), s\<lparr>pos := pos s + 1802\<rparr>) \<and>
      length (anchor (JoinSplit_layout (remaining s))) = 32 \<and>
      map length (nullifiers (JoinSplit_layout (remaining s))) = [32, 32] \<and>
      map length (commitments (JoinSplit_layout (remaining s))) = [32, 32] \<and>
      length (ephemeral_key (JoinSplit_layout (remaining s))) = 32 \<and>
      length (random_seed (JoinSplit_layout (remaining s))) = 32 \<and>
      map length (macs (JoinSplit_layout (remaining s))) = [32, 32] \<and>
      map (map length) (js_proof (JoinSplit_layout (remaining s))) =
        [[1, 32], [1, 32], [1, 64], [1, 32], [1, 32], [1, 32], [1, 32], [1, 32]] \<and>
      map length (ciphertexts (JoinSplit_layout (remaining s))) = [601, 601]) \<and>
   (16 \<le> length (remaining s) \<and> length (remaining s) < 1802 \<longrightarrow>
      JoinSplit_from_bytes s =
        Inr (JoinSplit_layout (remaining s), s\<lparr>pos := pos s + length (remaining s)\<rparr>)) \<and>
   (length (remaining s) < 16 \<longrightarrow> JoinSplit_from_bytes s = Inl StructError)"
proof (intro conjI impI)
  assume a: "1802 \<le> length (remaining s)"
  then show "JoinSplit_from_bytes s =
      Inr (JoinSplit_layout (remaining s), s\<lparr>pos := pos s + 1802\<rparr>)"
    using JoinSplit_from_bytes_layout [of s] by (simp add: skip_enough)
  from a show "length (anchor (JoinSplit_layout (remaining s))) = 32"
    by (simp add: JoinSplit_layout_def)
  from a show "map length (nullifiers (JoinSplit_layout (remaining s))) = [32, 32]"
    by (simp add: JoinSplit_layout_def)
  from a show "map length (commitments (JoinSplit_layout (remaining s))) = [32, 32]"
    by (simp add: JoinSplit_layout_def)
  from a show "length (ephemeral_key (JoinSplit_layout (remaining s))) = 32"
    by (simp add: JoinSplit_layout_def)
  from a show "length (random_seed (JoinSplit_layout (remaining s))) = 32"
    by (simp add: JoinSplit_layout_def)
  from a show "map length (macs (JoinSplit_layout (remaining s))) = [32, 32]"
    by (simp add: JoinSplit_layout_def)
  from a show "map (map length) (js_proof (JoinSplit_layout (remaining s))) =
      [[1, 32], [1, 32], [1, 64], [1, 32], [1, 32], [1, 32], [1, 32], [1, 32]]"
    by (simp add: JoinSplit_layout_def)
  from a show "map length (ciphertexts (JoinSplit_layout (remaining s))) = [601, 601]"
    by (simp add: JoinSplit_layout_def)
next
  assume "16 \<le> length (remaining s) \<and> length (remaining s) < 1802"
  then show "JoinSplit_from_bytes s =
      Inr (JoinSplit_layout (remaining s), s\<lparr>pos := pos s + length (remaining s)\<rparr>)"
    using JoinSplit_from_bytes_layout [of s] by (simp add: skip_def min_def)
next
  assume "length (remaining s) < 16"
  then show "JoinSplit_from_bytes s = Inl StructError"
    by (rule JoinSplit_from_bytes_short)
qed

theorem JoinSplit_from_bytes_fixed_witness:
  "1802 \<le> length (remaining (BytesIO_new (replicate 1802 1))) \<and>
   JoinSplit_from_bytes (BytesIO_new (replicate 1802 1)) =
     Inr (JoinSplit_layout (replicate 1802 1), \<lparr>buf = replicate 1802 1, pos = 1802\<rparr>) \<and>
   16 \<le> length (remaining (BytesIO_new (replicate 16 1))) \<and>
   length (remaining (BytesIO_new (replicate 16 1))) < 1802 \<and>
   JoinSplit_from_bytes (BytesIO_new (replicate 16 1)) =
     Inr (JoinSplit_layout (replicate 16 1), \<lparr>buf = replicate 16 1, pos = 16\<rparr>) \<and>
   length (remaining (BytesIO_new (replicate 15 1))) < 16 \<and>
   JoinSplit_from_bytes (BytesIO_new (replicate 15 1)) = Inl StructError"
proof -
  have r: "remaining (BytesIO_new (replicate n 1)) = replicate n 1" for n
    by (simp add: remaining_def BytesIO_new_def)
  have a: "JoinSplit_from_bytes (BytesIO_new (replicate 1802 1)) =
      Inr (JoinSplit_layout (replicate 1802 1), \<lparr>buf = replicate 1802 1, pos = 1802\<rparr>)"
    using JoinSplit_from_bytes_fixed [of "BytesIO_new (replicate 1802 1)"]
    by (simp add: r) (simp add: BytesIO_new_def)
  have b: "JoinSplit_from_bytes (BytesIO_new (replicate 16 1)) =
      Inr (JoinSplit_layout (replicate 16 1), \<lparr>buf = replicate 16 1, pos = 16\<rparr>)"
    using JoinSplit_from_bytes_fixed [of "BytesIO_new (replicate 16 1)"]
    by (simp add: r) (simp add: BytesIO_new_def)
  have c: "JoinSplit_from_bytes (BytesIO_new (replicate 15 1)) = Inl StructError"
    using JoinSplit_from_bytes_fixed [of "BytesIO_new (replicate 15 1)"]
    by (simp add: r)
  from a b c show ?thesis by (simp add: r)
qed

subsection \<open>Transaction\<close>

text \<open>
  The first four reads of \<^verbatim>\<open>Transaction.from_bytes\<close> on their own: version,
  inputs, outputs and lock time. The cursor they return is where the conditional tail
  starts.
\<close>

definition Transaction_fixed ::
  "BytesIO \<Rightarrow> error + (int \<times> TxIn list \<times> TxOut list \<times> int) \<times> BytesIO"
where
  "Transaction_fixed s =
     (let (v4, s1) = read 4 s in
      case unpack_I v4 of
        Inl e \<Rightarrow> Inl e
      | Inr version \<Rightarrow>
          (case read_vector TxIn_from_bytes s1 of
             Inl e \<Rightarrow> Inl e
           | Inr (ins, s2) \<Rightarrow>
               (case read_vector TxOut_from_bytes s2 of
                  Inl e \<Rightarrow> Inl e
                | Inr (outs, s3) \<Rightarrow>
                    (let (l4, s4) = read 4 s3 in
                     case unpack_I l4 of
                       Inl e \<Rightarrow> Inl e
                     | Inr locktime \<Rightarrow> Inr ((version, ins, outs, locktime), s4)))))"

lemma Transaction_from_bytes_split:
  "Transaction_from_bytes s =
     (case Transaction_fixed s of
        Inl e \<Rightarrow> Inl e
      | Inr ((version, ins, outs, locktime), s4) \<Rightarrow>
          (case (if version \<ge> 2 then read_vector JoinSplit_from_bytes s4 else Inr ([], s4)) of
             Inl e \<Rightarrow> Inl e
           | Inr (joinsplits, s5) \<Rightarrow>
               (let (pk, sg, s7) =
                      (if length joinsplits > 0
                       then (let (pk, s6) = read 32 s5;
                                 (sg, s7) = read 64 s6
                             in (pk, sg, s7))
                       else ([], [], s5))
                in Inr (\<lparr>tx_version = version, vin = ins, vout = outs, lock_time = locktime,
                          vjoinsplit = joinsplits, joinsplit_pubkey = pk,
                          joinsplit_sig = sg\<rparr>, s7))))"
  unfolding Transaction_from_bytes_def Transaction_fixed_def
  by (simp split: prod.splits sum.splits)

lemma read_compact_size_byte:
  assumes "remaining s = b # rest" and "uint b < 253"
  shows "read_compact_size s = Inr (uint b, advance 1 s)"
    and "remaining (advance 1 s) = rest"
proof -
  show "read_compact_size s = Inr (uint b, advance 1 s)"
    using assms
    by (simp add: read_compact_size_def read_def Let_def unpack_B_def unpack_le_def
          assert_le_ceiling_def advance_def)
  show "remaining (advance 1 s) = rest"
    using assms(1) by (simp add: remaining_advance)
qed

lemma read_vector_empty:
  assumes "remaining s = 0 # rest"
  shows "read_vector read_elem s = Inr ([], advance 1 s)"
  using read_compact_size_zero [OF assms] by (simp add: read_vector_def)

text \<open>A transaction without inputs and outputs, up to the lock time.\<close>

lemma Transaction_fixed_empty:
  assumes rem: "remaining s = v4 @ 0 # 0 # l4 @ rest"
    and len: "length v4 = 4" "length l4 = 4"
  shows "Transaction_fixed s = Inr ((le_uint v4, [], [], le_uint l4), advance 10 s)"
    and "remaining (advance 10 s) = rest"
proof -
  have r1: "read 4 s = (v4, advance 4 s)" "remaining (advance 4 s) = 0 # 0 # l4 @ rest"
    using read_advance [OF rem, of 4] len by simp_all
  have r2: "read_vector TxIn_from_bytes (advance 4 s) = Inr ([], advance 5 s)"
    using read_vector_empty [OF r1(2)] by (simp add: advance_advance)
  have m2: "remaining (advance 5 s) = 0 # l4 @ rest"
    using r1(2) remaining_advance [of 1 "advance 4 s"] by (simp add: advance_advance)
  have r3: "read_vector TxOut_from_bytes (advance 5 s) = Inr ([], advance 6 s)"
    using read_vector_empty [OF m2] by (simp add: advance_advance)
  have m3: "remaining (advance 6 s) = l4 @ rest"
    using m2 remaining_advance [of 1 "advance 5 s"] by (simp add: advance_advance)
  have r4: "read 4 (advance 6 s) = (l4, advance 10 s)" "remaining (advance 10 s) = rest"
    using read_advance [OF m3, of 4] len by (simp_all add: advance_advance)
  show "Transaction_fixed s = Inr ((le_uint v4, [], [], le_uint l4), advance 10 s)"
    using len by (simp add: Transaction_fixed_def r1 r2 r3 r4 unpack_I_def unpack_le_def)
  show "remaining (advance 10 s) = rest" by (rule r4(2))
qed

lemma read_vector_one_JoinSplit:
  assumes "remaining s = 1 # r" and "16 \<le> length r"
  shows "read_vector JoinSplit_from_bytes s =
     Inr ([JoinSplit_layout r], skip 1802 (advance 1 s))"
proof -
  have c: "read_compact_size s = Inr (1, advance 1 s)" "remaining (advance 1 s) = r"
    using read_compact_size_byte [OF assms(1)] by simp_all
  have "JoinSplit_from_bytes (advance 1 s) =
      Inr (JoinSplit_layout r, skip 1802 (advance 1 s))"
    using JoinSplit_from_bytes_layout [of "advance 1 s"] c(2) assms(2) by simp
  with c(1) show ?thesis by (simp add: read_vector_def)
qed

text \<open>
  A transaction of version 2 or later with no inputs, no outputs and one JoinSplit of
  1802 bytes, followed by whatever the buffer still holds.
\<close>

lemma Transaction_from_bytes_one_JoinSplit:
  assumes rem: "remaining s = v4 @ 0 # 0 # l4 @ 1 # js @ rest"
    and len: "length v4 = 4" "length l4 = 4" "length js = 1802"
    and ver: "2 \<le> le_uint v4"
  shows "Transaction_from_bytes s =
     Inr (\<lparr>tx_version = le_uint v4, vin = [], vout = [], lock_time = le_uint l4,
           vjoinsplit = [JoinSplit_layout (js @ rest)],
           joinsplit_pubkey = take 32 rest, joinsplit_sig = take 64 (drop 32 rest)\<rparr>,
          skip 1898 (advance 11 s))"
proof -
  note f = Transaction_fixed_empty [OF rem len(1,2)]
  have j: "read_vector JoinSplit_from_bytes (advance 10 s) =
      Inr ([JoinSplit_layout (js @ rest)], skip 1802 (advance 11 s))"
    using read_vector_one_JoinSplit [OF f(2)] len(3) by (simp add: advance_advance)
  have m: "remaining (advance 11 s) = js @ rest"
    using f(2) remaining_advance [of 1 "advance 10 s"] by (simp add: advance_advance)
  have p: "read 32 (skip 1802 (advance 11 s)) = (take 32 rest, skip 1834 (advance 11 s))"
    using read_skip [of 32 1802 "advance 11 s"] m len(3) by simp
  have g: "read 64 (skip 1834 (advance 11 s)) =
      (take 64 (drop 32 rest), skip 1898 (advance 11 s))"
    using read_skip [of 64 1834 "advance 11 s"] m len(3) by simp
  show ?thesis
    using ver by (simp add: Transaction_from_bytes_split f(1) j p g)
qed

text \<open>
  C6 as stated fails where the buffer ends after the join-splits: the two trailing
  reads are raw \<^verbatim>\<open>stream.read\<close> calls, which return nothing at the end of the
  buffer. A version-2 transaction with one complete JoinSplit and no bytes after it
  decodes, with a non-empty \<open>vjoinsplit\<close> and an empty key and signature.
\<close>

theorem Transaction_from_bytes_no_tail_counterexample:
  "Transaction_from_bytes
     (BytesIO_new ([2, 0, 0, 0] @ 0 # 0 # [0, 0, 0, 0] @ 1 # replicate 1802 0 @ [])) =
     Inr (\<lparr>tx_version = 2, vin = [], vout = [], lock_time = 0,
           vjoinsplit = [JoinSplit_layout (replicate 1802 0)],
           joinsplit_pubkey = [], joinsplit_sig = []\<rparr>,
          \<lparr>buf = [2, 0, 0, 0] @ 0 # 0 # [0, 0, 0, 0] @ 1 # replicate 1802 0 @ [],
           pos = 1813\<rparr>)"
proof -
  let ?b = "[2, 0, 0, 0] @ 0 # 0 # [0, 0, 0, 0] @ 1 # replicate 1802 0 @ []"
  have rem: "remaining (BytesIO_new ?b) = ?b"
    by (simp add: remaining_def BytesIO_new_def)
  have "remaining (advance 11 (BytesIO_new ?b)) = replicate 1802 0"
    by (simp add: remaining_def BytesIO_new_def advance_def)
  then have "skip 1898 (advance 11 (BytesIO_new ?b)) = \<lparr>buf = ?b, pos = 1813\<rparr>"
    by (simp add: skip_def) (simp add: advance_def BytesIO_new_def)
  with Transaction_from_bytes_one_JoinSplit [OF rem] show ?thesis
    by simp
qed

text \<open>
  C6 as amended: in every successful decode, with \<open>s4\<close> the cursor after the lock time,
  the join-splits are decoded from the wire if the version is at least 2, and otherwise
  \<open>vjoinsplit\<close> is empty and no byte is consumed for it; if \<open>vjoinsplit\<close> is empty, key
  and signature are empty and no byte is consumed for them; if \<open>vjoinsplit\<close> is not
  empty, the key is the next 32 bytes and the signature the 64 bytes after them, or as
  many of them as the buffer still holds, so they have 32 and 64 bytes exactly when at
  least 96 bytes remain, and can be shorter or empty otherwise.
\<close>

theorem Transaction_from_bytes_tail:
  assumes "Transaction_from_bytes s = Inr (tx, s')"
  shows "\<exists>s4 s5.
     Transaction_fixed s = Inr ((tx_version tx, vin tx, vout tx, lock_time tx), s4) \<and>
     (if 2 \<le> tx_version tx
      then read_vector JoinSplit_from_bytes s4 = Inr (vjoinsplit tx, s5)
      else vjoinsplit tx = [] \<and> s5 = s4) \<and>
     (if vjoinsplit tx = []
      then joinsplit_pubkey tx = [] \<and> joinsplit_sig tx = [] \<and> s' = s5
      else joinsplit_pubkey tx = take 32 (remaining s5) \<and>
           joinsplit_sig tx = take 64 (drop 32 (remaining s5)) \<and>
           s' = s5\<lparr>pos := pos s5 + min 96 (length (remaining s5))\<rparr> \<and>
           (96 \<le> length (remaining s5) \<longrightarrow>
              length (joinsplit_pubkey tx) = 32 \<and> length (joinsplit_sig tx) = 64))"
proof -
  from assms obtain version ins outs locktime s4
    where f: "Transaction_fixed s = Inr ((version, ins, outs, locktime), s4)"
    by (auto simp: Transaction_from_bytes_split split: sum.splits prod.splits)
  from assms f obtain joinsplits s5
    where j: "(if 2 \<le> version then read_vector JoinSplit_from_bytes s4 else Inr ([], s4)) =
        Inr (joinsplits, s5)"
    by (auto simp: Transaction_from_bytes_split split: sum.splits prod.splits)
  have r32: "read 32 s5 = (take 32 (remaining s5), skip 32 s5)"
    using read_skip [of 32 0 s5] by (simp add: skip_0)
  have r64: "read 64 (skip 32 s5) = (take 64 (drop 32 (remaining s5)), skip 96 s5)"
    using read_skip [of 64 32 s5] by simp
  show ?thesis
  proof (cases "joinsplits = []")
    case True
    with assms f j have "tx = \<lparr>tx_version = version, vin = ins, vout = outs,
        lock_time = locktime, vjoinsplit = [], joinsplit_pubkey = [],
        joinsplit_sig = []\<rparr>" and "s' = s5"
      by (simp_all add: Transaction_from_bytes_split)
    with f j True show ?thesis
      by (auto split: if_splits)
  next
    case False
    with assms f j have tx: "tx = \<lparr>tx_version = version, vin = ins, vout = outs,
        lock_time = locktime, vjoinsplit = joinsplits,
        joinsplit_pubkey = take 32 (remaining s5),
        joinsplit_sig = take 64 (drop 32 (remaining s5))\<rparr>" and s': "s' = skip 96 s5"
      by (simp_all add: Transaction_from_bytes_split r32 r64)
    from False j have v: "2 \<le> version"
      by (auto split: if_splits)
    with j have "read_vector JoinSplit_from_bytes s4 = Inr (joinsplits, s5)"
      by simp
    with f tx s' v False show ?thesis
      by (auto simp: skip_def)
  qed
qed

text \<open>
  Sample data: a version-2 transaction with one JoinSplit of zero bytes, followed by a
  key of 32 bytes and a signature of 64 bytes.
\<close>

definition sample_tx_bytes :: "byte list" where
  "sample_tx_bytes =
     [2, 0, 0, 0] @ 0 # 0 # [0, 0, 0, 0] @ 1 # replicate 1802 0 @
     (replicate 32 8 @ replicate 64 9)"

definition sample_tx :: Transaction where
  "sample_tx =
     \<lparr>tx_version = 2, vin = [], vout = [], lock_time = 0,
      vjoinsplit = [JoinSplit_layout (replicate 1802 0 @ replicate 32 8 @ replicate 64 9)],
      joinsplit_pubkey = replicate 32 8, joinsplit_sig = replicate 64 9\<rparr>"

lemma Transaction_from_bytes_sample:
  "Transaction_from_bytes (BytesIO_new sample_tx_bytes) =
     Inr (sample_tx, \<lparr>buf = sample_tx_bytes, pos = 1909\<rparr>)"
proof -
  let ?s = "BytesIO_new sample_tx_bytes"
  have rem: "remaining ?s =
      [2, 0, 0, 0] @ 0 # 0 # [0, 0, 0, 0] @ 1 # replicate 1802 0 @
      (replicate 32 8 @ replicate 64 9)"
    by (simp add: remaining_def BytesIO_new_def sample_tx_bytes_def)
  have "length (remaining (advance 11 ?s)) = 1898"
    by (simp add: remaining_advance rem)
  then have "skip 1898 (advance 11 ?s) = \<lparr>buf = sample_tx_bytes, pos = 1909\<rparr>"
    by (simp add: skip_def) (simp add: advance_def BytesIO_new_def)
  with Transaction_from_bytes_one_JoinSplit [OF rem] show ?thesis
    by (simp add: sample_tx_def)
qed

theorem Transaction_from_bytes_tail_witness:
  "Transaction_from_bytes (BytesIO_new sample_tx_bytes) =
     Inr (sample_tx, \<lparr>buf = sample_tx_bytes, pos = 1909\<rparr>) \<and>
   (\<exists>s4 s5.
      Transaction_fixed (BytesIO_new sample_tx_bytes) = Inr ((2, [], [], 0), s4) \<and>
      read_vector JoinSplit_from_bytes s4 = Inr (vjoinsplit sample_tx, s5) \<and>
      replicate 32 8 = take 32 (remaining s5) \<and>
      replicate 64 9 = take 64 (drop 32 (remaining s5)) \<and>
      \<lparr>buf = sample_tx_bytes, pos = 1909\<rparr> =
        s5\<lparr>pos := pos s5 + min 96 (length (remaining s5))\<rparr>)"
proof -
  note d = Transaction_from_bytes_sample
  have ne: "vjoinsplit sample_tx \<noteq> []" by (simp add: sample_tx_def)
  from Transaction_from_bytes_tail [OF d] obtain s4 s5 where
    "Transaction_fixed (BytesIO_new sample_tx_bytes) =
       Inr ((tx_version sample_tx, vin sample_tx, vout sample_tx, lock_time sample_tx), s4)"
    and "if 2 \<le> tx_version sample_tx
      then read_vector JoinSplit_from_bytes s4 = Inr (vjoinsplit sample_tx, s5)
      else vjoinsplit sample_tx = [] \<and> s5 = s4"
    and "if vjoinsplit sample_tx = []
      then joinsplit_pubkey sample_tx = [] \<and> joinsplit_sig sample_tx = [] \<and>
           \<lparr>buf = sample_tx_bytes, pos = 1909\<rparr> = s5
      else joinsplit_pubkey sample_tx = take 32 (remaining s5) \<and>
           joinsplit_sig sample_tx = take 64 (drop 32 (remaining s5)) \<and>
           \<lparr>buf = sample_tx_bytes, pos = 1909\<rparr> =
             s5\<lparr>pos := pos s5 + min 96 (length (remaining s5))\<rparr> \<and>
           (96 \<le> length (remaining s5) \<longrightarrow>
              length (joinsplit_pubkey sample_tx) = 32 \<and>
              length (joinsplit_sig sample_tx) = 64)"
    by blast
  with ne have
    "Transaction_fixed (BytesIO_new sample_tx_bytes) = Inr ((2, [], [], 0), s4) \<and>
      read_vector JoinSplit_from_bytes s4 = Inr (vjoinsplit sample_tx, s5) \<and>
      replicate 32 8 = take 32 (remaining s5) \<and>
      replicate 64 9 = take 64 (drop 32 (remaining s5)) \<and>
      \<lparr>buf = sample_tx_bytes, pos = 1909\<rparr> =
        s5\<lparr>pos := pos s5 + min 96 (length (remaining s5))\<rparr>"
    by (simp add: sample_tx_def)
  with d show ?thesis by blast
qed

end
